theory Spec2Isabelle
  imports Complex_Main "HOL-Library.AList"
begin

section \<open>JavaScript values\<close>

text \<open>
  The values that cross the wire and the tool interface are JSON values, plus
  \<open>undefined\<close> for an absent property. A number is a finite double, hence a rational;
  an object is its list of own properties in property order.
\<close>

datatype jsval =
    Undefined
  | Null
  | Bool bool
  | Num rat
  | Str string
  | Arr "jsval list"
  | Obj "(string \<times> jsval) list"

text \<open>
  A thrown value (or the reason of a rejected promise): an \<open>Error\<close> object with its
  \<open>name\<close> and \<open>message\<close>, or any other value given to \<open>throw\<close> / \<open>reject\<close>.
\<close>

datatype thrown =
    ErrorObj string string
  | Thrown jsval

text \<open>
  Library conversions the source calls but does not define: \<open>String(v)\<close> on numbers,
  arrays and objects, and \<open>JSON.stringify(v, null, 2)\<close>. They are parameters.
\<close>

record js_lib =
  lib_String :: "jsval \<Rightarrow> string"
  lib_stringify :: "jsval \<Rightarrow> string"

definition nullish :: "jsval \<Rightarrow> bool" where
  "nullish v = (v = Undefined \<or> v = Null)"

fun truthy :: "jsval \<Rightarrow> bool" where
  "truthy Undefined = False"
| "truthy Null = False"
| "truthy (Bool b) = b"
| "truthy (Num q) = (q \<noteq> 0)"
| "truthy (Str s) = (s \<noteq> [])"
| "truthy (Arr vs) = True"
| "truthy (Obj kvs) = True"

fun type_name :: "jsval \<Rightarrow> string" where
  "type_name Null = ''null''"
| "type_name v = ''undefined''"

definition cannot_read :: "jsval \<Rightarrow> string \<Rightarrow> thrown" where
  "cannot_read v k =
     ErrorObj ''TypeError''
       (''Cannot read properties of '' @ type_name v @ '' (reading '' @ [CHR 0x27] @ k @ [CHR 0x27] @ '')'')"

text \<open>
  Property read \<open>v.k\<close>. Reading a property of \<open>null\<close> or \<open>undefined\<close> throws a
  TypeError; an object gives the property or \<open>undefined\<close>. The names this program reads
  (\<open>type\<close>, \<open>id\<close>, \<open>result\<close>, \<open>error\<close>, \<open>sources\<close>, \<open>message\<close>, ...) are not
  properties of a primitive or of an array, so reading them there gives \<open>undefined\<close>.
\<close>

fun get_prop :: "jsval \<Rightarrow> string \<Rightarrow> thrown + jsval" where
  "get_prop Undefined k = Inl (cannot_read Undefined k)"
| "get_prop Null k = Inl (cannot_read Null k)"
| "get_prop (Obj kvs) k = Inr (case map_of kvs k of None \<Rightarrow> Undefined | Some v \<Rightarrow> v)"
| "get_prop v k = Inr Undefined"

text \<open>Optional chaining \<open>v?.k\<close>: \<open>undefined\<close> when \<open>v\<close> is nullish.\<close>

definition opt_prop :: "jsval \<Rightarrow> string \<Rightarrow> jsval" where
  "opt_prop v k = (if nullish v then Undefined else (case get_prop v k of Inr x \<Rightarrow> x | Inl e \<Rightarrow> Undefined))"

definition bindE :: "'e + 'a \<Rightarrow> ('a \<Rightarrow> 'e + 'b) \<Rightarrow> 'e + 'b" where
  "bindE m f = (case m of Inl e \<Rightarrow> Inl e | Inr x \<Rightarrow> f x)"

fun digit_char :: "nat \<Rightarrow> char" where
  "digit_char n = char_of (48 + n)"

function string_of_nat :: "nat \<Rightarrow> string" where
  "string_of_nat n =
     (if n < 10 then [digit_char n] else string_of_nat (n div 10) @ [digit_char (n mod 10)])"
  by pat_completeness auto
termination
  by (relation "measure id") auto

text \<open>\<open>String(v)\<close>, written out where the result does not depend on number formatting.\<close>

fun ToString :: "js_lib \<Rightarrow> jsval \<Rightarrow> string" where
  "ToString lib Undefined = ''undefined''"
| "ToString lib Null = ''null''"
| "ToString lib (Bool b) = (if b then ''true'' else ''false'')"
| "ToString lib (Str s) = s"
| "ToString lib v = lib_String lib v"

text \<open>\<open>String(err)\<close> of an Error object: its name when the message is empty.\<close>

fun thrown_String :: "js_lib \<Rightarrow> thrown \<Rightarrow> string" where
  "thrown_String lib (ErrorObj n m) =
     (if m = [] then n else if n = [] then m else n @ '': '' @ m)"
| "thrown_String lib (Thrown v) = ToString lib v"

section \<open>Tool dispatch (tools.js)\<close>

definition COMMAND_TIMEOUT :: nat where
  "COMMAND_TIMEOUT = 30000"

text \<open>The double written \<open>0.3\<close> in the source, as the rational it is.\<close>

definition stop_distance_default :: jsval where
  "stop_distance_default = Num (5404319552844595 / 18014398509481984)"

text \<open>\<open>a ?? b\<close> with \<open>b\<close> already a value.\<close>

definition coalesce :: "jsval \<Rightarrow> jsval \<Rightarrow> jsval" where
  "coalesce a b = (if nullish a then b else a)"

text \<open>
  One field of \<open>sources\<close> in the \<open>observe_scene\<close> case:
  \<open>toolInput.sources?.k ?? dataSourceOverrides.k ?? true\<close>. The right operand of \<open>??\<close>
  is read only when the left one is nullish.
\<close>

definition resolve_source :: "jsval \<Rightarrow> jsval \<Rightarrow> string \<Rightarrow> thrown + jsval" where
  "resolve_source toolInput dataSourceOverrides k =
     bindE (get_prop toolInput ''sources'') (\<lambda>src.
       let explicit = opt_prop src k in
       if \<not> nullish explicit then Inr explicit
       else bindE (get_prop dataSourceOverrides k) (\<lambda>d. Inr (coalesce d (Bool True))))"

text \<open>
  The \<open>switch\<close> of \<open>executeTool\<close> up to the call of \<open>sendCommand\<close>: the arguments of
  the call, \<open>None\<close> for the \<open>default\<close> case, or what evaluating the arguments threw.
\<close>

definition tool_request ::
  "string \<Rightarrow> jsval \<Rightarrow> jsval \<Rightarrow> thrown + (string \<times> jsval \<times> nat) option" where
  "tool_request toolName toolInput dataSourceOverrides =
    (if toolName = ''observe_scene'' then
       bindE (resolve_source toolInput dataSourceOverrides ''head_camera'') (\<lambda>h.
       bindE (resolve_source toolInput dataSourceOverrides ''orbit_camera'') (\<lambda>obt.
       bindE (resolve_source toolInput dataSourceOverrides ''state_data'') (\<lambda>sd.
         Inr (Some (''observe_scene'',
                    Obj [(''sources'', Obj [(''head_camera'', h), (''orbit_camera'', obt), (''state_data'', sd)])],
                    COMMAND_TIMEOUT)))))
     else if toolName = ''move_base'' then
       bindE (get_prop toolInput ''direction'') (\<lambda>d.
       bindE (get_prop toolInput ''amount'') (\<lambda>a.
         Inr (Some (''move_base'', Obj [(''direction'', d), (''amount'', a)], COMMAND_TIMEOUT))))
     else if toolName = ''move_arm'' then
       bindE (get_prop toolInput ''arm'') (\<lambda>a.
       bindE (get_prop toolInput ''x'') (\<lambda>x.
       bindE (get_prop toolInput ''y'') (\<lambda>y.
         Inr (Some (''move_arm'', Obj [(''arm'', a), (''x'', x), (''y'', y)], COMMAND_TIMEOUT)))))
     else if toolName = ''set_gripper'' then
       bindE (get_prop toolInput ''arm'') (\<lambda>a.
       bindE (get_prop toolInput ''state'') (\<lambda>st.
         Inr (Some (''set_gripper'', Obj [(''arm'', a), (''state'', st)], COMMAND_TIMEOUT))))
     else if toolName = ''move_head'' then
       bindE (get_prop toolInput ''pan'') (\<lambda>p.
       bindE (get_prop toolInput ''tilt'') (\<lambda>t.
         Inr (Some (''move_head'', Obj [(''pan'', p), (''tilt'', t)], COMMAND_TIMEOUT))))
     else if toolName = ''get_robot_state'' then
       Inr (Some (''get_robot_state'', Obj [], COMMAND_TIMEOUT))
     else if toolName = ''get_scene_objects'' then
       Inr (Some (''get_scene_objects'', Obj [], COMMAND_TIMEOUT))
     else if toolName = ''navigate_to'' then
       bindE (get_prop toolInput ''target'') (\<lambda>t.
       bindE (get_prop toolInput ''stop_distance'') (\<lambda>sd.
         Inr (Some (''navigate_to'',
                    Obj [(''target'', t), (''stop_distance'', coalesce sd stop_distance_default)],
                    COMMAND_TIMEOUT * 2))))
     else if toolName = ''reset_robot'' then
       Inr (Some (''reset_robot'', Obj [], COMMAND_TIMEOUT))
     else Inr None)"

text \<open>
  The \<open>catch\<close> of \<open>executeTool\<close>: \<open>{ error: err.message || String(err) }\<close>. Reading
  \<open>err.message\<close> itself throws when the caught value is \<open>null\<close> or \<open>undefined\<close>, and
  that TypeError leaves \<open>executeTool\<close>.
\<close>

definition catch_result :: "js_lib \<Rightarrow> thrown \<Rightarrow> thrown + jsval" where
  "catch_result lib err =
     (case err of
        ErrorObj n m \<Rightarrow>
          Inr (Obj [(''error'', Str (if m \<noteq> [] then m else thrown_String lib err))])
      | Thrown v \<Rightarrow>
          bindE (get_prop v ''message'') (\<lambda>m.
            Inr (Obj [(''error'', if truthy m then m else Str (thrown_String lib err))])))"

text \<open>
  \<open>sendCommand\<close> is the function handed in by the caller. It is asynchronous and talks
  to the outside world, so it takes the state of the world \<open>'w\<close> and returns the new one
  with either the value it resolved to or the reason it rejected with.
\<close>

type_synonym 'w send_fn = "'w \<Rightarrow> string \<Rightarrow> jsval \<Rightarrow> nat \<Rightarrow> (thrown + jsval) \<times> 'w"

definition executeTool ::
  "js_lib \<Rightarrow> string \<Rightarrow> jsval \<Rightarrow> 'w send_fn \<Rightarrow> jsval \<Rightarrow> 'w \<Rightarrow> (thrown + jsval) \<times> 'w" where
  "executeTool lib toolName toolInput sendCommand dataSourceOverrides w =
     (let overrides = (if dataSourceOverrides = Undefined then Obj [] else dataSourceOverrides) in
      case tool_request toolName toolInput overrides of
        Inl err \<Rightarrow> (catch_result lib err, w)
      | Inr None \<Rightarrow> (Inr (Obj [(''error'', Str (''Unknown tool: '' @ toolName))]), w)
      | Inr (Some (action, params, timeout)) \<Rightarrow>
          (case sendCommand w action params timeout of
             (Inl err, w') \<Rightarrow> (catch_result lib err, w')
           | (Inr r, w') \<Rightarrow> (Inr r, w')))"

text \<open>The names registered in \<open>TOOL_DEFINITIONS\<close>, in catalog order.\<close>

definition TOOL_NAMES :: "string list" where
  "TOOL_NAMES = [''observe_scene'', ''move_base'', ''move_arm'', ''set_gripper'', ''move_head'',
     ''get_robot_state'', ''get_scene_objects'', ''navigate_to'', ''reset_robot'']"

section \<open>Transport relay (server/index.js)\<close>

text \<open>
  A socket, a promise and a timer are objects; each is named by a natural number, the
  model's stand-in for object identity. The timer started inside the executor of promise
  \<open>p\<close> is given the same number \<open>p\<close> (timers and promises live in separate tables).
\<close>

datatype readyState = CONNECTING | OPEN | CLOSING | CLOSED

type_synonym sock = nat
type_synonym handle = nat

datatype promise_state = Pending | Resolved jsval | Rejected thrown

text \<open>The value stored by \<open>pendingCommands.set(id, { resolve, reject, timer })\<close>.\<close>

record pending_command =
  resolve :: handle
  reject :: handle
  timer :: handle

text \<open>
  A running timer: when it is due, and what its callback closes over
  (\<open>id\<close>, \<open>action\<close>, \<open>timeout\<close>, \<open>reject\<close>).
\<close>

record timer_rec =
  t_deadline :: nat
  t_id :: nat
  t_action :: string
  t_timeout :: nat
  t_reject :: handle

text \<open>The object serialized by \<open>simulationSocket.send\<close>.\<close>

record frame =
  f_id :: nat
  f_action :: string
  f_params :: jsval

text \<open>
  The module state (\<open>simulationSocket\<close>, \<open>pendingCommands\<close>, \<open>commandIdCounter\<close>)
  and the part of the runtime the module acts on: the \<open>readyState\<close> of each socket,
  the running timers, the promises handed out, every call of a \<open>resolve\<close> or
  \<open>reject\<close> function in order, the clock in milliseconds, and the frames sent.
  \<open>pendingCommands\<close> is a JavaScript \<open>Map\<close>: an association list in insertion order.
\<close>

record relay =
  simulationSocket :: "sock option"
  pendingCommands :: "(nat \<times> pending_command) list"
  commandIdCounter :: nat
  readyStates :: "sock \<Rightarrow> readyState"
  timers :: "handle \<rightharpoonup> timer_rec"
  promises :: "handle \<rightharpoonup> promise_state"
  settle_calls :: "(handle \<times> promise_state) list"
  next_handle :: handle
  now :: nat
  sent :: "(sock \<times> frame) list"

definition relay_init :: relay where
  "relay_init = \<lparr> simulationSocket = None, pendingCommands = [], commandIdCounter = 0,
     readyStates = (\<lambda>ws. CONNECTING), timers = Map.empty, promises = Map.empty,
     settle_calls = [], next_handle = 0, now = 0, sent = [] \<rparr>"

definition NotConnectedError :: thrown where
  "NotConnectedError =
     ErrorObj ''Error'' ''Simulation not connected. Please open the simulation in a browser.''"

definition DisconnectedError :: thrown where
  "DisconnectedError = ErrorObj ''Error'' ''Simulation disconnected''"

definition TimeoutError :: "string \<Rightarrow> nat \<Rightarrow> thrown" where
  "TimeoutError action timeout =
     ErrorObj ''Error''
       (''Command '' @ [CHR 0x22] @ action @ [CHR 0x22] @ '' timed out after ''
          @ string_of_nat timeout @ ''ms'')"

text \<open>
  Calling the \<open>resolve\<close> or \<open>reject\<close> function of promise \<open>p\<close>: the call is recorded,
  and it settles the promise only if the promise is still pending.
\<close>

definition settle :: "handle \<Rightarrow> promise_state \<Rightarrow> relay \<Rightarrow> relay" where
  "settle p outcome s =
     s\<lparr> settle_calls := settle_calls s @ [(p, outcome)],
        promises := (if promises s p = Some Pending then (promises s)(p \<mapsto> outcome) else promises s) \<rparr>"

definition clearTimeout :: "handle \<Rightarrow> relay \<Rightarrow> relay" where
  "clearTimeout t s = s\<lparr> timers := (timers s)(t := None) \<rparr>"

text \<open>
  \<open>commandIdCounter++\<close> on a double: exact up to \<open>2^53\<close>, where adding one rounds back
  to \<open>2^53\<close>. The counter starts at 0, so it never holds a larger value.
\<close>

definition js_increment :: "nat \<Rightarrow> nat" where
  "js_increment n = (if n < 9007199254740992 then n + 1 else n)"

text \<open>
  The delay Node.js gives a timer: a delay below 1 or above \<open>2^31 - 1\<close> is replaced by 1.
\<close>

definition TIMEOUT_MAX :: nat where
  "TIMEOUT_MAX = 2147483647"

definition timer_delay :: "nat \<Rightarrow> nat" where
  "timer_delay t = (if 1 \<le> t \<and> t \<le> TIMEOUT_MAX then t else 1)"

text \<open>
  \<open>pendingCommands.get(msg.id)\<close>: the keys are the numbers \<open>id\<close>, and a key given as a
  JavaScript value finds the entry whose number it is.
\<close>

fun map_get_js :: "(nat \<times> 'v) list \<Rightarrow> jsval \<Rightarrow> (nat \<times> 'v) option" where
  "map_get_js [] v = None"
| "map_get_js ((k, x) # m) v = (if v = Num (of_nat k) then Some (k, x) else map_get_js m v)"

text \<open>\<open>wss.on('connection', (ws) => ...)\<close>: the assignment; the handlers follow.\<close>

definition on_connection :: "sock \<Rightarrow> relay \<Rightarrow> relay" where
  "on_connection ws s = s\<lparr> simulationSocket := Some ws \<rparr>"

text \<open>
  \<open>ws.on('message')\<close>. The argument is what \<open>JSON.parse(data.toString())\<close> returned,
  \<open>None\<close> when it threw; every exception inside the handler is caught and logged.
\<close>

definition on_message :: "jsval option \<Rightarrow> relay \<Rightarrow> relay" where
  "on_message parsed s =
     (case parsed of
        None \<Rightarrow> s
      | Some msg \<Rightarrow>
          (case get_prop msg ''type'' of
             Inl e \<Rightarrow> s
           | Inr ty \<Rightarrow>
               if ty = Str ''command_result'' \<and> get_prop msg ''id'' \<noteq> Inr Undefined then
                 (case get_prop msg ''id'' of
                    Inl e \<Rightarrow> s
                  | Inr idv \<Rightarrow>
                      (case map_get_js (pendingCommands s) idv of
                         None \<Rightarrow> s
                       | Some (k, pending) \<Rightarrow>
                           (case get_prop msg ''result'' of
                              Inl e \<Rightarrow> s
                            | Inr res \<Rightarrow>
                                let s1 = clearTimeout (timer pending) s;
                                    s2 = s1\<lparr> pendingCommands := AList.delete k (pendingCommands s1) \<rparr>
                                in settle (resolve pending) (Resolved res) s2)))
               else s))"

text \<open>The body of the \<open>for ... of pendingCommands\<close> loop in \<open>ws.on('close')\<close>.\<close>

definition reject_pending :: "nat \<times> pending_command \<Rightarrow> relay \<Rightarrow> relay" where
  "reject_pending entry s =
     settle (reject (snd entry)) (Rejected DisconnectedError) (clearTimeout (timer (snd entry)) s)"

definition on_close :: "sock \<Rightarrow> relay \<Rightarrow> relay" where
  "on_close ws s =
     (let s1 = (if simulationSocket s = Some ws then s\<lparr> simulationSocket := None \<rparr> else s);
          s2 = fold reject_pending (pendingCommands s1) s1
      in s2\<lparr> pendingCommands := [] \<rparr>)"

text \<open>The callback given to \<open>setTimeout\<close> in \<open>sendCommandToSim\<close>.\<close>

definition timer_callback :: "timer_rec \<Rightarrow> relay \<Rightarrow> relay" where
  "timer_callback r s =
     settle (t_reject r) (Rejected (TimeoutError (t_action r) (t_timeout r)))
       (s\<lparr> pendingCommands := AList.delete (t_id r) (pendingCommands s) \<rparr>)"

text \<open>
  The runtime runs the callback of a timer that is still set and due, once; a timer that
  was cleared, or is not yet due, does not run.
\<close>

definition on_timer :: "handle \<Rightarrow> relay \<Rightarrow> relay" where
  "on_timer t s =
     (case timers s t of
        None \<Rightarrow> s
      | Some r \<Rightarrow> if now s < t_deadline r then s
                  else timer_callback r (s\<lparr> timers := (timers s)(t := None) \<rparr>))"

text \<open>
  \<open>sendCommandToSim(action, params, timeout = 30000)\<close>: returns the promise and the new
  state. The timeout argument is \<open>None\<close> when the caller leaves it out.
\<close>

definition sendCommandToSim :: "string \<Rightarrow> jsval \<Rightarrow> nat option \<Rightarrow> relay \<Rightarrow> handle \<times> relay" where
  "sendCommandToSim action params timeout_arg s =
     (let timeout = (case timeout_arg of None \<Rightarrow> 30000 | Some t \<Rightarrow> t);
          p = next_handle s;
          s0 = s\<lparr> next_handle := Suc p, promises := (promises s)(p \<mapsto> Pending) \<rparr>
      in case simulationSocket s0 of
           None \<Rightarrow> (p, settle p (Rejected NotConnectedError) s0)
         | Some ws \<Rightarrow>
             if readyStates s0 ws \<noteq> OPEN then (p, settle p (Rejected NotConnectedError) s0)
             else
               let ident = commandIdCounter s0;
                   s1 = s0\<lparr> commandIdCounter := js_increment ident \<rparr>;
                   s2 = s1\<lparr> timers := (timers s1)(p \<mapsto>
                          \<lparr> t_deadline = now s1 + timer_delay timeout, t_id = ident,
                            t_action = action, t_timeout = timeout, t_reject = p \<rparr>) \<rparr>;
                   s3 = s2\<lparr> pendingCommands :=
                          AList.update ident \<lparr> resolve = p, reject = p, timer = p \<rparr> (pendingCommands s2) \<rparr>
               in (p, s3\<lparr> sent := sent s3 @ [(ws, \<lparr> f_id = ident, f_action = action, f_params = params \<rparr>)] \<rparr>))"

text \<open>
  What can happen to the relay, one event at a time. The \<open>ws\<close> library has the socket
  \<open>OPEN\<close> when it emits \<open>connection\<close> and \<open>CLOSED\<close> when it emits \<open>close\<close>; in between
  the socket changes state on its own (\<open>SocketState\<close>), and the clock advances.
\<close>

datatype event =
    Connection sock
  | SocketState sock readyState
  | Message sock "jsval option"
  | Close sock
  | Send string jsval "nat option"
  | Fire handle
  | Advance nat

fun step :: "event \<Rightarrow> relay \<Rightarrow> relay" where
  "step (Connection ws) s = on_connection ws (s\<lparr> readyStates := (readyStates s)(ws := OPEN) \<rparr>)"
| "step (SocketState ws rs) s = s\<lparr> readyStates := (readyStates s)(ws := rs) \<rparr>"
| "step (Message ws parsed) s = on_message parsed s"
| "step (Close ws) s = on_close ws (s\<lparr> readyStates := (readyStates s)(ws := CLOSED) \<rparr>)"
| "step (Send action params timeout_arg) s = snd (sendCommandToSim action params timeout_arg s)"
| "step (Fire t) s = on_timer t s"
| "step (Advance d) s = s\<lparr> now := now s + d \<rparr>"

definition run :: "event list \<Rightarrow> relay \<Rightarrow> relay" where
  "run es s = fold step es s"

section \<open>Agent loop (ai-controller.js)\<close>

text \<open>A content block of a model turn: text, a tool invocation (id, name, input), or another type.\<close>

datatype block =
    TextBlock string
  | ToolUseBlock string string jsval
  | OtherBlock string

record response =
  content :: "block list"
  stop_reason :: string

text \<open>A content block of a tool result: text, or a base64 image (media type, data).\<close>

datatype content_block =
    Text string
  | Image string jsval

record tool_result =
  tool_use_id :: string
  tr_content :: "content_block list"

datatype message =
    UserMessage string
  | AssistantMessage "block list"
  | ToolResultsMessage "tool_result list"

text \<open>What is written to the stream: the updates of \<open>onStream\<close> and the three final markers.\<close>

datatype stream_event =
    Status string
  | TextEvent string
  | ToolCall string jsval
  | Done string
  | AbortedEvent string
  | ErrorEvent jsval

record controller =
  conversationHistory :: "message list"
  dataSourceOverrides :: jsval
  abortController :: bool

definition controller_init :: controller where
  "controller_init = \<lparr> conversationHistory = [],
     dataSourceOverrides = Obj [(''head_camera'', Bool True), (''orbit_camera'', Bool True), (''state_data'', Bool True)],
     abortController = False \<rparr>"

text \<open>\<open>{ ...result }\<close>: the own enumerable properties of the value.\<close>

fun spread :: "jsval \<Rightarrow> (string \<times> jsval) list" where
  "spread (Obj kvs) = kvs"
| "spread (Arr vs) = map (\<lambda>(i, v). (string_of_nat i, v)) (enumerate 0 vs)"
| "spread (Str s) = map (\<lambda>(i, c). (string_of_nat i, Str [c])) (enumerate 0 s)"
| "spread v = []"

text \<open>The two blocks pushed for a camera image that is present and truthy.\<close>

definition image_blocks :: "jsval \<Rightarrow> string \<Rightarrow> content_block list" where
  "image_blocks v caption = (if truthy v then [Image ''image/png'' v, Text caption] else [])"

text \<open>
  \<open>_buildToolResultContent(toolName, result)\<close>. Reading \<open>result.error\<close> throws when the
  result is \<open>null\<close> or \<open>undefined\<close>; after that read the result is neither.
\<close>

definition buildToolResultContent ::
  "js_lib \<Rightarrow> string \<Rightarrow> jsval \<Rightarrow> thrown + content_block list" where
  "buildToolResultContent lib toolName result =
     bindE (get_prop result ''error'') (\<lambda>err.
       if truthy err then Inr [Text (''Error: '' @ ToString lib err)]
       else
         bindE (get_prop result ''head_camera_image'') (\<lambda>head.
         bindE (get_prop result ''orbit_camera_image'') (\<lambda>orbit.
           let content1 = image_blocks head ''[Head camera view above]'';
               content2 = content1 @ image_blocks orbit ''[Orbit camera view above]'';
               dataResult = AList.delete ''orbit_camera_image''
                              (AList.delete ''head_camera_image'' (spread result));
               content3 = (if length dataResult > 0
                           then content2 @ [Text (lib_stringify lib (Obj dataResult))]
                           else content2)
           in Inr (if length content3 = 0 then [Text ''Command executed successfully.''] else content3))))"

text \<open>
  The outside world of one \<open>processMessage\<close> call: the model API, the relay function
  handed in, and whether \<open>abort()\<close> has been called on this call's controller by the time
  an awaited operation returns. Each awaited operation takes the state of the world and
  returns the new one.
\<close>

record 'w agent_env =
  messages_create :: "'w \<Rightarrow> message list \<Rightarrow> (thrown + response) \<times> 'w"
  sendCommand :: "'w send_fn"
  abort_called :: "'w \<Rightarrow> bool"

text \<open>
  The variables of the loop: the history, \<open>finalText\<close>, the updates given to \<open>onStream\<close>
  so far, \<open>signal.aborted\<close>, and the world.
\<close>

record 'w loop_state =
  history :: "message list"
  finalText :: string
  events :: "stream_event list"
  aborted :: bool
  world :: 'w

definition AbortError :: thrown where
  "AbortError = ErrorObj ''AbortError'' ''Aborted''"

definition emit :: "stream_event \<Rightarrow> 'w loop_state \<Rightarrow> 'w loop_state" where
  "emit e st = st\<lparr> events := events st @ [e] \<rparr>"

text \<open>The updates streamed for the blocks of a turn, the text parts and the tool-use blocks.\<close>

fun block_events :: "block list \<Rightarrow> stream_event list" where
  "block_events [] = []"
| "block_events (TextBlock t # bs) = TextEvent t # block_events bs"
| "block_events (ToolUseBlock i n inp # bs) = ToolCall n inp # block_events bs"
| "block_events (OtherBlock ty # bs) = block_events bs"

fun textParts :: "block list \<Rightarrow> string list" where
  "textParts [] = []"
| "textParts (TextBlock t # bs) = t # textParts bs"
| "textParts (b # bs) = textParts bs"

fun toolUseBlocks :: "block list \<Rightarrow> (string \<times> string \<times> jsval) list" where
  "toolUseBlocks [] = []"
| "toolUseBlocks (ToolUseBlock i n inp # bs) = (i, n, inp) # toolUseBlocks bs"
| "toolUseBlocks (b # bs) = toolUseBlocks bs"

text \<open>The \<open>for (const toolBlock of toolUseBlocks)\<close> loop, with \<open>toolResults\<close> as accumulator.\<close>

fun exec_tools ::
  "js_lib \<Rightarrow> 'w agent_env \<Rightarrow> jsval \<Rightarrow> (string \<times> string \<times> jsval) list \<Rightarrow> tool_result list
     \<Rightarrow> 'w loop_state \<Rightarrow> (thrown + tool_result list) \<times> 'w loop_state" where
  "exec_tools lib env overrides [] toolResults st = (Inr toolResults, st)"
| "exec_tools lib env overrides ((tid, name, input) # rest) toolResults st =
     (if aborted st then (Inl AbortError, st)
      else
        let st1 = emit (Status (''Executing: '' @ name @ ''...'')) st;
            out = executeTool lib name input (sendCommand env) overrides (world st1);
            st2 = st1\<lparr> world := snd out, aborted := (aborted st1 \<or> abort_called env (snd out)) \<rparr>
        in case fst out of
             Inl err \<Rightarrow> (Inl err, st2)
           | Inr result \<Rightarrow>
               if aborted st2 then (Inl AbortError, st2)
               else (case buildToolResultContent lib name result of
                       Inl err \<Rightarrow> (Inl err, st2)
                     | Inr resultContent \<Rightarrow>
                         exec_tools lib env overrides rest
                           (toolResults @ [\<lparr> tool_use_id = tid, tr_content = resultContent \<rparr>]) st2))"

text \<open>
  \<open>while (maxIterations-- > 0) { ... }\<close>: the first argument after the overrides is
  \<open>maxIterations\<close>. The result is \<open>Inr ()\<close> when the loop ends by its condition or by
  \<open>break\<close>, and \<open>Inl\<close> what was thrown inside it.
\<close>

fun agent_loop ::
  "js_lib \<Rightarrow> 'w agent_env \<Rightarrow> jsval \<Rightarrow> nat \<Rightarrow> 'w loop_state \<Rightarrow> (thrown + unit) \<times> 'w loop_state" where
  "agent_loop lib env overrides 0 st = (Inr (), st)"
| "agent_loop lib env overrides (Suc maxIterations) st =
     (if aborted st then (Inl AbortError, st)
      else
        let st1 = emit (Status ''Thinking...'') st;
            out = messages_create env (world st1) (history st1);
            st2 = st1\<lparr> world := snd out, aborted := (aborted st1 \<or> abort_called env (snd out)) \<rparr>
        in case fst out of
             Inl err \<Rightarrow> (Inl err, st2)
           | Inr response \<Rightarrow>
               if aborted st2 then (Inl AbortError, st2)
               else
                 let assistantContent = content response;
                     st3 = st2\<lparr> history := history st2 @ [AssistantMessage assistantContent] \<rparr>;
                     st4 = st3\<lparr> events := events st3 @ block_events assistantContent \<rparr>;
                     st5 = st4\<lparr> finalText := finalText st4 @ concat (textParts assistantContent) \<rparr>
                 in if length (toolUseBlocks assistantContent) = 0 \<or> stop_reason response = ''end_turn''
                    then (Inr (), st5)
                    else (case exec_tools lib env overrides (toolUseBlocks assistantContent) [] st5 of
                            (Inl err, st6) \<Rightarrow> (Inl err, st6)
                          | (Inr toolResults, st6) \<Rightarrow>
                              agent_loop lib env overrides maxIterations
                                (st6\<lparr> history := history st6 @ [ToolResultsMessage toolResults] \<rparr>)))"

definition MAX_ITERATIONS :: nat where
  "MAX_ITERATIONS = 20"

text \<open>\<open>err.name\<close> and \<open>err.message\<close> of a caught value.\<close>

fun thrown_name :: "thrown \<Rightarrow> thrown + jsval" where
  "thrown_name (ErrorObj n m) = Inr (Str n)"
| "thrown_name (Thrown v) = get_prop v ''name''"

fun thrown_message :: "thrown \<Rightarrow> thrown + jsval" where
  "thrown_message (ErrorObj n m) = Inr (Str m)"
| "thrown_message (Thrown v) = get_prop v ''message''"

text \<open>
  \<open>processMessage(userMessage, sendCommand, onStream)\<close>: the value returned or thrown, the
  controller afterwards, the updates given to \<open>onStream\<close>, and the world afterwards.
\<close>

definition processMessage ::
  "js_lib \<Rightarrow> 'w agent_env \<Rightarrow> string \<Rightarrow> controller \<Rightarrow> 'w
     \<Rightarrow> (thrown + string) \<times> controller \<times> stream_event list \<times> 'w" where
  "processMessage lib env userMessage ctl w =
     (let ctl1 = ctl\<lparr> conversationHistory := conversationHistory ctl @ [UserMessage userMessage],
                      abortController := True \<rparr>;
          st0 = \<lparr> history = conversationHistory ctl1, finalText = [], events = [],
                  aborted = False, world = w \<rparr>;
          out = agent_loop lib env (dataSourceOverrides ctl1) MAX_ITERATIONS st0;
          st = snd out;
          ctl2 = ctl1\<lparr> conversationHistory := history st, abortController := False \<rparr>
      in case fst out of
           Inr u \<Rightarrow> (Inr (finalText st), ctl2, events st, world st)
         | Inl err \<Rightarrow>
             (case thrown_name err of
                Inl e \<Rightarrow> (Inl e, ctl2, events st, world st)
              | Inr nm \<Rightarrow>
                  if nm = Str ''AbortError''
                  then (Inl err, ctl2, events st, snd (sendCommand env (world st) ''stop_motors'' (Obj []) 5000))
                  else (Inl err, ctl2, events st, world st)))"

text \<open>\<open>setDataSources({ head_camera, orbit_camera, state_data })\<close>.\<close>

definition set_override :: "string \<Rightarrow> jsval \<Rightarrow> jsval \<Rightarrow> jsval" where
  "set_override k dataSources overrides =
     (case get_prop dataSources k of
        Inr v \<Rightarrow> (if v \<noteq> Undefined
                  then (case overrides of Obj kvs \<Rightarrow> Obj (AList.update k v kvs) | other \<Rightarrow> other)
                  else overrides)
      | Inl e \<Rightarrow> overrides)"

definition setDataSources :: "jsval \<Rightarrow> controller \<Rightarrow> controller" where
  "setDataSources dataSources ctl =
     ctl\<lparr> dataSourceOverrides :=
            set_override ''state_data'' dataSources
              (set_override ''orbit_camera'' dataSources
                 (set_override ''head_camera'' dataSources (dataSourceOverrides ctl))) \<rparr>"

section \<open>Chat endpoint (server/index.js)\<close>

text \<open>
  The answer of \<open>POST /api/chat\<close>: a JSON body with a status code, or the lines of the
  stream in the order written.
\<close>

datatype chat_response =
    Json nat jsval
  | Stream "stream_event list"
  | Unhandled thrown

definition sim_connected :: "relay \<Rightarrow> bool" where
  "sim_connected s =
     (case simulationSocket s of None \<Rightarrow> False | Some ws \<Rightarrow> readyStates s ws = OPEN)"

definition api_chat ::
  "js_lib \<Rightarrow> 'w agent_env \<Rightarrow> relay \<Rightarrow> jsval \<Rightarrow> controller \<Rightarrow> 'w \<Rightarrow> chat_response \<times> controller \<times> 'w" where
  "api_chat lib env s body ctl w =
     (case get_prop body ''message'' of
        Inl e \<Rightarrow> (Unhandled e, ctl, w)
      | Inr msg \<Rightarrow>
          (case msg of
             Str userMessage \<Rightarrow>
               if \<not> truthy msg then (Json 400 (Obj [(''error'', Str ''Message is required'')]), ctl, w)
               else if \<not> sim_connected s
               then (Json 503 (Obj [(''error'',
                       Str ''Simulation not connected. Please open the simulation page first.'')]), ctl, w)
               else
                 let dataSources = (case get_prop body ''dataSources'' of Inr d \<Rightarrow> d | Inl e \<Rightarrow> Undefined);
                     ctl1 = (if truthy dataSources then setDataSources dataSources ctl else ctl)
                 in (case processMessage lib env userMessage ctl1 w of
                       (Inr txt, ctl2, evs, w') \<Rightarrow> (Stream (evs @ [Done txt]), ctl2, w')
                     | (Inl err, ctl2, evs, w') \<Rightarrow>
                         (case thrown_name err of
                            Inl e \<Rightarrow> (Unhandled e, ctl2, w')
                          | Inr nm \<Rightarrow>
                              if nm = Str ''AbortError''
                              then (Stream (evs @ [AbortedEvent ''Interrupted by user'']), ctl2, w')
                              else (case thrown_message err of
                                      Inl e \<Rightarrow> (Unhandled e, ctl2, w')
                                    | Inr m \<Rightarrow> (Stream (evs @ [ErrorEvent m]), ctl2, w'))))
           | other \<Rightarrow> (Json 400 (Obj [(''error'', Str ''Message is required'')]), ctl, w)))"

section \<open>Auxiliary definitions for the statements\<close>

text \<open>What \<open>executeTool\<close> makes of the outcome of \<open>sendCommand\<close>: the \<open>return await\<close> and the \<open>catch\<close>.\<close>

definition forward :: "js_lib \<Rightarrow> (thrown + jsval) \<times> 'w \<Rightarrow> (thrown + jsval) \<times> 'w" where
  "forward lib out = (case out of (Inl err, w') \<Rightarrow> (catch_result lib err, w') | (Inr r, w') \<Rightarrow> (Inr r, w'))"

text \<open>The value of \<open>v.k\<close> where the read does not throw.\<close>

definition read_prop :: "jsval \<Rightarrow> string \<Rightarrow> jsval" where
  "read_prop v k = (case get_prop v k of Inr x \<Rightarrow> x | Inl e \<Rightarrow> Undefined)"

text \<open>Concrete stand-ins used where a statement is evaluated on an example.\<close>

definition lib0 :: js_lib where
  "lib0 = \<lparr> lib_String = (\<lambda>v. ''[object Object]''), lib_stringify = (\<lambda>v. ''{}'') \<rparr>"

text \<open>A relay function that resolves every command and records the calls made to it.\<close>

definition recording_send :: "(string \<times> jsval \<times> nat) list send_fn" where
  "recording_send w action params timeout = (Inr (Obj [(''success'', Bool True)]), w @ [(action, params, timeout)])"


text \<open>How often a settling function (\<open>resolve\<close> or \<open>reject\<close>) of promise \<open>p\<close> has been called.\<close>

definition settle_count :: "handle \<Rightarrow> relay \<Rightarrow> nat" where
  "settle_count p s = length (filter (\<lambda>c. fst c = p) (settle_calls s))"

text \<open>A promise that has been handed out and is no longer pending.\<close>

definition settled :: "promise_state option \<Rightarrow> bool" where
  "settled x = (case x of Some (Resolved v) \<Rightarrow> True | Some (Rejected e) \<Rightarrow> True | other \<Rightarrow> False)"

text \<open>
  The invariant of the relay, in parts. Every entry of the pending table holds the two
  settling functions of one promise and that promise's timer, which is running and whose
  callback closes over the entry's key.
\<close>

definition inv_entries :: "relay \<Rightarrow> bool" where
  "inv_entries s = (\<forall>k pc. (k, pc) \<in> set (pendingCommands s) \<longrightarrow>
      resolve pc = reject pc \<and> timer pc = reject pc \<and>
      (\<exists>r. timers s (reject pc) = Some r \<and> t_id r = k))"

text \<open>Every running timer belongs to a pending promise, the one its callback rejects.\<close>

definition inv_timers :: "relay \<Rightarrow> bool" where
  "inv_timers s = (\<forall>t r. timers s t = Some r \<longrightarrow> t_reject r = t \<and> promises s t = Some Pending)"

text \<open>Every pending promise has its timer running.\<close>

definition inv_pending :: "relay \<Rightarrow> bool" where
  "inv_pending s = (\<forall>p. promises s p = Some Pending \<longrightarrow> timers s p \<noteq> None)"

text \<open>Handles from \<open>next_handle\<close> on are not in use.\<close>

definition inv_fresh :: "relay \<Rightarrow> bool" where
  "inv_fresh s = (\<forall>p. next_handle s \<le> p \<longrightarrow> promises s p = None)"

text \<open>A settled promise has had exactly one settling call, any other none.\<close>

definition inv_count :: "relay \<Rightarrow> bool" where
  "inv_count s = (\<forall>p. settle_count p s = (if settled (promises s p) then 1 else 0))"

text \<open>The keys of the pending table are distinct, as in every \<open>Map\<close>, and the parts above hold.\<close>

definition relay_inv :: "relay \<Rightarrow> bool" where
  "relay_inv s = (distinct (map fst (pendingCommands s)) \<and> inv_entries s \<and> inv_timers s
                  \<and> inv_pending s \<and> inv_fresh s \<and> inv_count s)"

text \<open>The state after a send that is rejected as not connected.\<close>

definition send_rejected :: "relay \<Rightarrow> relay" where
  "send_rejected s =
     settle (next_handle s) (Rejected NotConnectedError)
       (s\<lparr> next_handle := Suc (next_handle s), promises := (promises s)(next_handle s \<mapsto> Pending) \<rparr>)"

text \<open>The value of the \<open>timeout\<close> parameter with its default.\<close>

definition resolved_timeout :: "nat option \<Rightarrow> nat" where
  "resolved_timeout timeout_arg = (case timeout_arg of None \<Rightarrow> 30000 | Some t \<Rightarrow> t)"

text \<open>The timer started by a send in state \<open>s\<close>.\<close>

definition new_timer :: "string \<Rightarrow> nat option \<Rightarrow> relay \<Rightarrow> timer_rec" where
  "new_timer action timeout_arg s =
     \<lparr> t_deadline = now s + timer_delay (resolved_timeout timeout_arg), t_id = commandIdCounter s,
       t_action = action, t_timeout = resolved_timeout timeout_arg, t_reject = next_handle s \<rparr>"

text \<open>The state after a send over the open socket \<open>ws\<close>.\<close>

definition send_accepted :: "sock \<Rightarrow> string \<Rightarrow> jsval \<Rightarrow> nat option \<Rightarrow> relay \<Rightarrow> relay" where
  "send_accepted ws action params timeout_arg s =
     s\<lparr> next_handle := Suc (next_handle s),
        promises := (promises s)(next_handle s \<mapsto> Pending),
        commandIdCounter := js_increment (commandIdCounter s),
        timers := (timers s)(next_handle s \<mapsto> new_timer action timeout_arg s),
        pendingCommands := AList.update (commandIdCounter s)
           \<lparr> resolve = next_handle s, reject = next_handle s, timer = next_handle s \<rparr> (pendingCommands s),
        sent := sent s @ [(ws, \<lparr> f_id = commandIdCounter s, f_action = action, f_params = params \<rparr>)] \<rparr>"

text \<open>The state after a result frame matched the entry \<open>(k, pc)\<close>.\<close>

definition message_matched :: "nat \<Rightarrow> pending_command \<Rightarrow> jsval \<Rightarrow> relay \<Rightarrow> relay" where
  "message_matched k pc res s =
     settle (resolve pc) (Resolved res)
       ((clearTimeout (timer pc) s)\<lparr> pendingCommands := AList.delete k (pendingCommands s) \<rparr>)"

text \<open>The state after the timer \<open>t\<close> with record \<open>r\<close> fired.\<close>

definition timer_fired :: "handle \<Rightarrow> timer_rec \<Rightarrow> relay \<Rightarrow> relay" where
  "timer_fired t r s = timer_callback r (s\<lparr> timers := (timers s)(t := None) \<rparr>)"

text \<open>\<open>2^53\<close>, where the id counter stops changing.\<close>

definition ID_LIMIT :: nat where
  "ID_LIMIT = 9007199254740992"

text \<open>The correlation ids allocated so far, in order: the ids of the frames sent.\<close>

definition allocated_ids :: "relay \<Rightarrow> nat list" where
  "allocated_ids s = map (f_id \<circ> snd) (sent s)"

text \<open>The n-th id allocated is \<open>min n 2^53\<close>, and the counter holds the next one.\<close>

definition inv_ids :: "relay \<Rightarrow> bool" where
  "inv_ids s = (allocated_ids s = map (\<lambda>i. min i ID_LIMIT) [0..<length (sent s)]
                \<and> commandIdCounter s = min (length (sent s)) ID_LIMIT)"

text \<open>
  As long as the counter is below \<open>2^53\<close> no id has been reused: every key of the
  pending table is below the counter, and every running timer has its entry in the table.
\<close>

definition inv_tight :: "relay \<Rightarrow> bool" where
  "inv_tight s = (commandIdCounter s < ID_LIMIT \<longrightarrow>
      (\<forall>k pc. (k, pc) \<in> set (pendingCommands s) \<longrightarrow> k < commandIdCounter s) \<and>
      (\<forall>t r. timers s t = Some r \<longrightarrow> (\<exists>pc. (t_id r, pc) \<in> set (pendingCommands s) \<and> reject pc = t)))"

text \<open>Example runs: two commands pending on connection 1; a command sent after connection 2 replaced connection 1.\<close>

definition two_pending :: "event list" where
  "two_pending = [Connection 1, Send ''move_base'' (Obj []) (Some 30000),
                  Send ''observe_scene'' (Obj []) (Some 30000)]"

definition replaced_then_sent :: "event list" where
  "replaced_then_sent = [Connection 1, Connection 2, Send ''move_base'' (Obj []) (Some 30000)]"

text \<open>
  An example run with a replaced connection, a timeout, a disconnect and a send that is
  refused in between: three commands are accepted, and connection 3 is open at the end.
\<close>

definition mixed_run :: "event list" where
  "mixed_run = [Connection 1, Send ''move_base'' (Obj []) (Some 30000),
                Connection 2, Send ''observe_scene'' (Obj []) (Some 30000),
                Advance 30000, Fire 0, Close 2,
                Send ''get_robot_state'' (Obj []) (Some 30000),
                Connection 3, Send ''stop_motors'' (Obj []) (Some 5000)]"





text \<open>
  Example runs around one command sent over connection 1 with a timeout of 30000 ms: up to
  one millisecond before the timeout, and past it; \<open>result_frame k\<close> is a result frame
  for id \<open>k\<close>.
\<close>

definition one_command :: "event list" where
  "one_command = [Connection 1]"






text \<open>The number of \<open>Thinking...\<close> updates, one before each request to the model.\<close>

definition thinking_count :: "stream_event list \<Rightarrow> nat" where
  "thinking_count evs = length (filter (\<lambda>e. e = Status ''Thinking...'') evs)"


text \<open>
  The same outside world with a record of every request made to the model added to it:
  each request is appended, in order, as the state of the world it was made in and the
  history it carried.
\<close>

definition with_requests :: "'w agent_env \<Rightarrow> ('w \<times> ('w \<times> message list) list) agent_env" where
  "with_requests env = \<lparr>
     messages_create = (\<lambda>wl h. (fst (messages_create env (fst wl) h),
                                 (snd (messages_create env (fst wl) h), snd wl @ [(fst wl, h)]))),
     sendCommand = (\<lambda>wl action params timeout.
                      (fst (sendCommand env (fst wl) action params timeout),
                       (snd (sendCommand env (fst wl) action params timeout), snd wl))),
     abort_called = (\<lambda>wl. abort_called env (fst wl)) \<rparr>"






text \<open>
  The same outside world with a record of every call of the relay function added to it:
  the calls are appended, in order, as \<open>(action, params, timeout)\<close>.
\<close>

definition with_log :: "'w agent_env \<Rightarrow> ('w \<times> (string \<times> jsval \<times> nat) list) agent_env" where
  "with_log env = \<lparr>
     messages_create = (\<lambda>wl h. (fst (messages_create env (fst wl) h),
                                 (snd (messages_create env (fst wl) h), snd wl))),
     sendCommand = (\<lambda>wl action params timeout.
                      (fst (sendCommand env (fst wl) action params timeout),
                       (snd (sendCommand env (fst wl) action params timeout),
                        snd wl @ [(action, params, timeout)]))),
     abort_called = (\<lambda>wl. abort_called env (fst wl)) \<rparr>"

text \<open>The three markers that end a stream.\<close>

fun terminal :: "stream_event \<Rightarrow> bool" where
  "terminal (Done t) = True"
| "terminal (AbortedEvent t) = True"
| "terminal (ErrorEvent v) = True"
| "terminal e = False"

text \<open>A record of relay calls in which every action is a tool of the catalog.\<close>

definition log_ok :: "(string \<times> jsval \<times> nat) list \<Rightarrow> bool" where
  "log_ok l = (\<forall>c \<in> set l. fst c \<in> set TOOL_NAMES)"

text \<open>What holds of the loop state throughout: only tool commands were sent, and no final marker was streamed.\<close>

definition loop_ok :: "('w \<times> (string \<times> jsval \<times> nat) list) loop_state \<Rightarrow> bool" where
  "loop_ok st = (log_ok (snd (world st)) \<and> (\<forall>e \<in> set (events st). \<not> terminal e))"

text \<open>
  A model that asks for three tools at once, a relay that resolves every tool command but
  rejects the stop command, and an \<open>abort()\<close> that arrives while the first tool is
  executing; the world is the number of awaited operations so far.
\<close>

definition interrupted_run :: "nat agent_env" where
  "interrupted_run = \<lparr>
     messages_create = (\<lambda>w h. (Inr \<lparr> content = [ToolUseBlock ''toolu_1'' ''get_scene_objects'' (Obj []),
                                                ToolUseBlock ''toolu_2'' ''get_robot_state'' (Obj []),
                                                ToolUseBlock ''toolu_3'' ''reset_robot'' (Obj [])],
                                     stop_reason = ''tool_use'' \<rparr>, Suc w)),
     sendCommand = (\<lambda>w action params timeout.
                      (if action = ''stop_motors'' then Inl NotConnectedError else Inr (Obj []), Suc w)),
     abort_called = (\<lambda>w. 2 \<le> w) \<rparr>"

text \<open>A request body for the chat endpoint, with a message and no data-source toggles.\<close>

definition chat_request :: jsval where
  "chat_request = Obj [(''message'', Str ''look around'')]"

text \<open>The controller \<open>processMessage\<close> runs on: after \<open>if (dataSources) setDataSources(dataSources)\<close>.\<close>

definition chat_controller :: "jsval \<Rightarrow> controller \<Rightarrow> controller" where
  "chat_controller body ctl =
     (if truthy (read_prop body ''dataSources'')
      then setDataSources (read_prop body ''dataSources'') ctl else ctl)"


section \<open>Properties of tool dispatch\<close>

lemma get_prop_ok: "\<not> nullish v \<Longrightarrow> get_prop v k = Inr (read_prop v k)"
  by (cases v) (simp_all add: nullish_def read_prop_def)

lemma resolve_source_ok:
  assumes "\<not> nullish toolInput" "\<not> nullish ovr"
  shows "resolve_source toolInput ovr k =
           Inr (let e = opt_prop (read_prop toolInput ''sources'') k; d = read_prop ovr k in
                if \<not> nullish e then e else if \<not> nullish d then d else Bool True)"
  using assms
  by (simp add: resolve_source_def get_prop_ok bindE_def Let_def coalesce_def)

text \<open>
  Claim C6. A dispatch of \<open>observe_scene\<close> makes exactly one relay call, with action
  \<open>observe_scene\<close>, the default timeout, and a \<open>sources\<close> object whose three fields are
  each resolved in the order: explicit input value, session default, \<open>true\<close> (a value
  counts when it is neither \<open>null\<close> nor \<open>undefined\<close>). The tool input is an object, as
  the model API delivers it.
\<close>

theorem observe_scene_sources_precedence:
  assumes "\<not> nullish toolInput" and "overrides \<noteq> Null"
  defines "session \<equiv> (if overrides = Undefined then Obj [] else overrides)"
  defines "resolved \<equiv> (\<lambda>k.
             let explicit = opt_prop (read_prop toolInput ''sources'') k; default = read_prop session k
             in if \<not> nullish explicit then explicit else if \<not> nullish default then default else Bool True)"
  shows "executeTool lib ''observe_scene'' toolInput send overrides w =
           forward lib (send w ''observe_scene''
             (Obj [(''sources'', Obj [(''head_camera'', resolved ''head_camera''),
                                      (''orbit_camera'', resolved ''orbit_camera''),
                                      (''state_data'', resolved ''state_data'')])])
             30000)"
proof -
  have n: "\<not> nullish session" using assms(2) by (auto simp: session_def nullish_def)
  have "tool_request ''observe_scene'' toolInput session =
          Inr (Some (''observe_scene'',
             Obj [(''sources'', Obj [(''head_camera'', resolved ''head_camera''),
                                     (''orbit_camera'', resolved ''orbit_camera''),
                                     (''state_data'', resolved ''state_data'')])], 30000))"
    by (simp add: tool_request_def resolve_source_ok[OF assms(1) n] bindE_def COMMAND_TIMEOUT_def resolved_def)
  then show ?thesis
    unfolding executeTool_def Let_def session_def[symmetric]
    by (simp add: forward_def split: prod.splits sum.splits)
qed

text \<open>
  With no explicit \<open>sources.head_camera\<close> and a session default of \<open>false\<close> the recorded
  call carries \<open>false\<close>; with neither it carries \<open>true\<close>; an explicit \<open>true\<close> wins over a
  session default of \<open>false\<close>.
\<close>

theorem observe_scene_sources_precedence_witness:
  "snd (executeTool lib0 ''observe_scene'' (Obj []) recording_send (Obj [(''head_camera'', Bool False)]) []) =
     [(''observe_scene'', Obj [(''sources'', Obj [(''head_camera'', Bool False),
         (''orbit_camera'', Bool True), (''state_data'', Bool True)])], 30000)]
   \<and> snd (executeTool lib0 ''observe_scene'' (Obj []) recording_send (Obj []) []) =
     [(''observe_scene'', Obj [(''sources'', Obj [(''head_camera'', Bool True),
         (''orbit_camera'', Bool True), (''state_data'', Bool True)])], 30000)]
   \<and> snd (executeTool lib0 ''observe_scene'' (Obj [(''sources'', Obj [(''head_camera'', Bool True)])])
            recording_send (Obj [(''head_camera'', Bool False)]) []) =
     [(''observe_scene'', Obj [(''sources'', Obj [(''head_camera'', Bool True),
         (''orbit_camera'', Bool True), (''state_data'', Bool True)])], 30000)]"
  using observe_scene_sources_precedence [of "Obj []" "Obj [(''head_camera'', Bool False)]" lib0 recording_send "[]"]
        observe_scene_sources_precedence [of "Obj []" "Obj []" lib0 recording_send "[]"]
        observe_scene_sources_precedence [of "Obj [(''sources'', Obj [(''head_camera'', Bool True)])]" "Obj [(''head_camera'', Bool False)]" lib0 recording_send "[]"]
  by (simp add: nullish_def forward_def recording_send_def read_prop_def opt_prop_def)










section \<open>Properties of the tool-result mapping\<close>




section \<open>Properties of the relay\<close>

text \<open>
  Claim C10. When no socket is stored, or the stored socket is not \<open>OPEN\<close>,
  \<open>sendCommandToSim\<close> returns a promise already rejected with the not-connected error,
  and \<open>commandIdCounter\<close>, the timers, \<open>pendingCommands\<close>, \<open>simulationSocket\<close> and the
  frames sent are unchanged.
\<close>

theorem sendCommandToSim_not_connected:
  fixes action :: string and params :: jsval and timeout_arg :: "nat option"
  assumes "simulationSocket s = None \<or> (\<exists>ws. simulationSocket s = Some ws \<and> readyStates s ws \<noteq> OPEN)"
  defines "p \<equiv> fst (sendCommandToSim action params timeout_arg s)"
  defines "s' \<equiv> snd (sendCommandToSim action params timeout_arg s)"
  shows "promises s' p = Some (Rejected NotConnectedError)
       \<and> settle_calls s' = settle_calls s @ [(p, Rejected NotConnectedError)]
       \<and> commandIdCounter s' = commandIdCounter s
       \<and> timers s' = timers s
       \<and> pendingCommands s' = pendingCommands s
       \<and> simulationSocket s' = simulationSocket s
       \<and> sent s' = sent s"
  using assms(1) unfolding p_def s'_def
  by (auto simp: sendCommandToSim_def Let_def settle_def split: option.splits)

theorem sendCommandToSim_not_connected_witness:
  "promises (snd (sendCommandToSim ''move_head'' (Obj []) (Some 30000)
               (run [Connection 1, SocketState 1 CLOSING] relay_init))) 0 = Some (Rejected NotConnectedError)
   \<and> commandIdCounter (snd (sendCommandToSim ''move_head'' (Obj []) (Some 30000)
               (run [Connection 1, SocketState 1 CLOSING] relay_init))) = 0
   \<and> pendingCommands (snd (sendCommandToSim ''move_head'' (Obj []) (Some 30000)
               (run [Connection 1, SocketState 1 CLOSING] relay_init))) = []
   \<and> simulationSocket (run [Connection 1, SocketState 1 CLOSING] relay_init) = Some 1"
  using sendCommandToSim_not_connected [of "run [Connection 1, SocketState 1 CLOSING] relay_init" "''move_head''" "Obj []" "Some 30000"]
  by (simp add: run_def relay_init_def on_connection_def sendCommandToSim_def Let_def)

subsection \<open>The pending table as a list\<close>

lemma settled_simps [simp]:
  "settled None = False" "settled (Some Pending) = False"
  "settled (Some (Resolved v)) = True" "settled (Some (Rejected e)) = True"
  by (simp_all add: settled_def)

lemma map_get_js_Some:
  "map_get_js m v = Some (k, x) \<Longrightarrow> (k, x) \<in> set m \<and> v = Num (of_nat k)"
  by (induction m) (auto split: if_splits)

lemma set_delete: "set (AList.delete k al) = {e \<in> set al. fst e \<noteq> k}"
  by (auto simp: AList.delete_eq)

lemma in_set_update:
  "distinct (map fst al) \<Longrightarrow>
   (k', x) \<in> set (AList.update k v al) \<longleftrightarrow> (k' = k \<and> x = v) \<or> (k' \<noteq> k \<and> (k', x) \<in> set al)"
  by (induction al) (auto simp: rev_image_eqI)

subsection \<open>What each handler does to each field\<close>

lemma settle_fields [simp]:
  "simulationSocket (settle p out s) = simulationSocket s"
  "pendingCommands (settle p out s) = pendingCommands s"
  "commandIdCounter (settle p out s) = commandIdCounter s"
  "readyStates (settle p out s) = readyStates s"
  "timers (settle p out s) = timers s"
  "next_handle (settle p out s) = next_handle s"
  "now (settle p out s) = now s"
  "sent (settle p out s) = sent s"
  "settle_calls (settle p out s) = settle_calls s @ [(p, out)]"
  "promises (settle p out s) =
     (if promises s p = Some Pending then (promises s)(p \<mapsto> out) else promises s)"
  by (simp_all add: settle_def)

lemma settle_count_settle [simp]:
  "settle_count q (settle p out s) = settle_count q s + (if q = p then 1 else 0)"
  by (simp add: settle_count_def)

lemma clearTimeout_fields [simp]:
  "simulationSocket (clearTimeout t s) = simulationSocket s"
  "pendingCommands (clearTimeout t s) = pendingCommands s"
  "commandIdCounter (clearTimeout t s) = commandIdCounter s"
  "readyStates (clearTimeout t s) = readyStates s"
  "timers (clearTimeout t s) = (timers s)(t := None)"
  "next_handle (clearTimeout t s) = next_handle s"
  "now (clearTimeout t s) = now s"
  "sent (clearTimeout t s) = sent s"
  "settle_calls (clearTimeout t s) = settle_calls s"
  "promises (clearTimeout t s) = promises s"
  by (simp_all add: clearTimeout_def)

lemma settle_count_clearTimeout [simp]: "settle_count q (clearTimeout t s) = settle_count q s"
  by (simp add: settle_count_def)

lemma send_cases:
  "sendCommandToSim action params timeout_arg s =
     (next_handle s,
      case simulationSocket s of
        None \<Rightarrow> send_rejected s
      | Some ws \<Rightarrow> if readyStates s ws = OPEN then send_accepted ws action params timeout_arg s
                   else send_rejected s)"
  by (simp add: sendCommandToSim_def Let_def send_rejected_def send_accepted_def new_timer_def
        resolved_timeout_def split: option.splits)

subsection \<open>The invariant of the relay\<close>

lemma relay_inv_init: "relay_inv relay_init"
  by (simp add: relay_inv_def relay_init_def inv_entries_def inv_timers_def inv_pending_def
        inv_fresh_def inv_count_def settle_count_def)

lemma fresh_handle:
  assumes "inv_fresh s" "inv_timers s"
  shows "promises s (next_handle s) = None" "timers s (next_handle s) = None"
proof -
  show a: "promises s (next_handle s) = None"
    using assms by (simp add: inv_fresh_def)
  show "timers s (next_handle s) = None"
  proof (cases "timers s (next_handle s)")
    case (Some r)
    with assms have "promises s (next_handle s) = Some Pending"
      by (simp add: inv_timers_def)
    with a show ?thesis by simp
  qed simp
qed

lemma inv_send_rejected:
  assumes "relay_inv s"
  shows "relay_inv (send_rejected s)"
proof -
  from assms have f: "promises s (next_handle s) = None" "timers s (next_handle s) = None"
    using fresh_handle by (auto simp: relay_inv_def)
  have 1: "inv_entries (send_rejected s)"
    using assms by (auto simp: relay_inv_def inv_entries_def send_rejected_def)
  have 2: "inv_timers (send_rejected s)"
    using assms f by (auto simp: relay_inv_def inv_timers_def send_rejected_def)
  have 3: "inv_pending (send_rejected s)"
    using assms f by (auto simp: relay_inv_def inv_pending_def send_rejected_def)
  have 4: "inv_fresh (send_rejected s)"
    using assms f by (auto simp: relay_inv_def inv_fresh_def send_rejected_def)
  have "inv_count s" using assms by (simp add: relay_inv_def)
  then have 5: "inv_count (send_rejected s)"
    using f unfolding inv_count_def
    by (auto simp: send_rejected_def settle_count_def)
  show ?thesis using assms 1 2 3 4 5 by (simp add: relay_inv_def send_rejected_def)
qed

lemma inv_send_accepted:
  assumes "relay_inv s"
  shows "relay_inv (send_accepted ws action params timeout_arg s)"
proof -
  from assms have f: "promises s (next_handle s) = None" "timers s (next_handle s) = None"
    using fresh_handle by (auto simp: relay_inv_def)
  have d: "distinct (map fst (pendingCommands s))" using assms by (simp add: relay_inv_def)
  have e: "reject pc \<noteq> next_handle s" if "(k, pc) \<in> set (pendingCommands s)" for k pc
  proof -
    from assms that obtain r where "timers s (reject pc) = Some r"
      unfolding relay_inv_def inv_entries_def by blast
    with f(2) show ?thesis by auto
  qed
  have 0: "distinct (map fst (pendingCommands (send_accepted ws action params timeout_arg s)))"
    using assms by (simp add: relay_inv_def send_accepted_def distinct_update)
  have "inv_entries s" using assms by (simp add: relay_inv_def)
  then have 1: "inv_entries (send_accepted ws action params timeout_arg s)"
    using e unfolding inv_entries_def
    by (auto simp: send_accepted_def in_set_update[OF d] new_timer_def)
  have 2: "inv_timers (send_accepted ws action params timeout_arg s)"
    using assms f by (auto simp: relay_inv_def inv_timers_def send_accepted_def new_timer_def)
  have 3: "inv_pending (send_accepted ws action params timeout_arg s)"
    using assms f by (auto simp: relay_inv_def inv_pending_def send_accepted_def)
  have 4: "inv_fresh (send_accepted ws action params timeout_arg s)"
    using assms f by (auto simp: relay_inv_def inv_fresh_def send_accepted_def)
  have "inv_count s" using assms by (simp add: relay_inv_def)
  then have 5: "inv_count (send_accepted ws action params timeout_arg s)"
    using f unfolding inv_count_def
    by (auto simp: send_accepted_def settle_count_def)
  show ?thesis using 0 1 2 3 4 5 by (simp add: relay_inv_def)
qed

lemma inv_send: "relay_inv s \<Longrightarrow> relay_inv (step (Send action params timeout_arg) s)"
  by (simp add: send_cases inv_send_rejected inv_send_accepted split: option.splits)

lemma on_message_cases:
  "on_message parsed s = s \<or>
   (\<exists>msg k pc. parsed = Some msg \<and> get_prop msg ''id'' = Inr (Num (of_nat k))
       \<and> (k, pc) \<in> set (pendingCommands s)
       \<and> on_message parsed s = message_matched k pc (read_prop msg ''result'') s)"
proof (cases parsed)
  case None
  then show ?thesis by (simp add: on_message_def)
next
  case (Some msg)
  show ?thesis
  proof (cases "get_prop msg ''type''")
    case (Inl e)
    with Some show ?thesis by (simp add: on_message_def)
  next
    case (Inr ty)
    show ?thesis
    proof (cases "get_prop msg ''id''")
      case (Inl e)
      with Some Inr show ?thesis by (simp add: on_message_def)
    next
      case idv: (Inr idv)
      show ?thesis
      proof (cases "map_get_js (pendingCommands s) idv")
        case None
        with Some Inr idv show ?thesis by (simp add: on_message_def)
      next
        case found: (Some entry)
        obtain k pc where entry: "entry = (k, pc)" by (cases entry)
        from found entry have m: "(k, pc) \<in> set (pendingCommands s)" "idv = Num (of_nat k)"
          by (auto dest: map_get_js_Some)
        show ?thesis
        proof (cases "get_prop msg ''result''")
          case (Inl e)
          with Some Inr idv found entry show ?thesis by (simp add: on_message_def)
        next
          case res: (Inr res)
          then have "read_prop msg ''result'' = res" by (simp add: read_prop_def)
          with Some Inr idv found entry res m show ?thesis
            by (auto simp: on_message_def message_matched_def Let_def)
        qed
      qed
    qed
  qed
qed

lemma entry_timer:
  assumes "inv_entries s" "(k, pc) \<in> set (pendingCommands s)"
  obtains r where "timers s (reject pc) = Some r" "t_id r = k" "resolve pc = reject pc" "timer pc = reject pc"
  using assms unfolding inv_entries_def by blast

lemma entry_pending:
  assumes "inv_entries s" "inv_timers s" "(k, pc) \<in> set (pendingCommands s)"
  shows "promises s (reject pc) = Some Pending"
  using assms unfolding inv_entries_def inv_timers_def by blast

lemma entries_same_waiter:
  assumes "inv_entries s" "(k, pc) \<in> set (pendingCommands s)" "(k', pc') \<in> set (pendingCommands s)"
    "reject pc = reject pc'"
  shows "k = k'"
  using assms unfolding inv_entries_def by (metis option.inject)

lemma inv_message_matched:
  assumes "relay_inv s" "(k, pc) \<in> set (pendingCommands s)"
  shows "relay_inv (message_matched k pc res s)"
proof -
  from assms have ie: "inv_entries s" and it: "inv_timers s" and ip: "inv_pending s"
    and ifr: "inv_fresh s" and ic: "inv_count s" and d: "distinct (map fst (pendingCommands s))"
    by (simp_all add: relay_inv_def)
  obtain r where r: "timers s (reject pc) = Some r" "t_id r = k" "resolve pc = reject pc" "timer pc = reject pc"
    using entry_timer[OF ie assms(2)] .
  have p: "promises s (reject pc) = Some Pending" using entry_pending[OF ie it assms(2)] .
  have 0: "distinct (map fst (pendingCommands (message_matched k pc res s)))"
    using d by (simp add: message_matched_def distinct_delete)
  have 1: "inv_entries (message_matched k pc res s)"
    unfolding inv_entries_def
  proof (intro allI impI)
    fix k' pc' assume "(k', pc') \<in> set (pendingCommands (message_matched k pc res s))"
    then have m: "(k', pc') \<in> set (pendingCommands s)" "k' \<noteq> k"
      by (auto simp: message_matched_def set_delete)
    then have "reject pc' \<noteq> reject pc" using entries_same_waiter[OF ie m(1) assms(2)] by auto
    moreover obtain r' where "timers s (reject pc') = Some r'" "t_id r' = k'" "resolve pc' = reject pc'" "timer pc' = reject pc'"
      using entry_timer[OF ie m(1)] .
    ultimately show "resolve pc' = reject pc' \<and> timer pc' = reject pc' \<and>
        (\<exists>r. timers (message_matched k pc res s) (reject pc') = Some r \<and> t_id r = k')"
      using r by (simp add: message_matched_def)
  qed
  have 2: "inv_timers (message_matched k pc res s)"
    using it r p unfolding inv_timers_def by (auto simp: message_matched_def)
  have 3: "inv_pending (message_matched k pc res s)"
    using ip r p unfolding inv_pending_def by (auto simp: message_matched_def split: if_splits)
  have 4: "inv_fresh (message_matched k pc res s)"
    using ifr r p unfolding inv_fresh_def by (auto simp: message_matched_def)
  have 5: "inv_count (message_matched k pc res s)"
    using ic r p unfolding inv_count_def by (auto simp: message_matched_def settle_count_def)
  show ?thesis using 0 1 2 3 4 5 by (simp add: relay_inv_def)
qed

lemma inv_message: "relay_inv s \<Longrightarrow> relay_inv (step (Message ws parsed) s)"
  using on_message_cases[of parsed s] inv_message_matched by auto

lemma on_timer_cases:
  "on_timer t s = s \<or> (\<exists>r. timers s t = Some r \<and> t_deadline r \<le> now s \<and> on_timer t s = timer_fired t r s)"
  by (auto simp: on_timer_def timer_fired_def split: option.splits)

lemma inv_timer_fired:
  assumes "relay_inv s" "timers s t = Some r"
  shows "relay_inv (timer_fired t r s)"
proof -
  from assms have ie: "inv_entries s" and it: "inv_timers s" and ip: "inv_pending s"
    and ifr: "inv_fresh s" and ic: "inv_count s" and d: "distinct (map fst (pendingCommands s))"
    by (simp_all add: relay_inv_def)
  from it assms(2) have r: "t_reject r = t" "promises s t = Some Pending"
    unfolding inv_timers_def by auto
  have 0: "distinct (map fst (pendingCommands (timer_fired t r s)))"
    using d by (simp add: timer_fired_def timer_callback_def distinct_delete)
  have 1: "inv_entries (timer_fired t r s)"
    unfolding inv_entries_def
  proof (intro allI impI)
    fix k' pc' assume "(k', pc') \<in> set (pendingCommands (timer_fired t r s))"
    then have m: "(k', pc') \<in> set (pendingCommands s)" "k' \<noteq> t_id r"
      by (auto simp: timer_fired_def timer_callback_def set_delete)
    obtain r' where r': "timers s (reject pc') = Some r'" "t_id r' = k'" "resolve pc' = reject pc'" "timer pc' = reject pc'"
      using entry_timer[OF ie m(1)] .
    with m(2) assms(2) have "reject pc' \<noteq> t" by auto
    with r' show "resolve pc' = reject pc' \<and> timer pc' = reject pc' \<and>
        (\<exists>r''. timers (timer_fired t r s) (reject pc') = Some r'' \<and> t_id r'' = k')"
      by (simp add: timer_fired_def timer_callback_def)
  qed
  have 2: "inv_timers (timer_fired t r s)"
    using it r unfolding inv_timers_def by (auto simp: timer_fired_def timer_callback_def)
  have 3: "inv_pending (timer_fired t r s)"
    using ip r unfolding inv_pending_def by (auto simp: timer_fired_def timer_callback_def split: if_splits)
  have 4: "inv_fresh (timer_fired t r s)"
    using ifr r unfolding inv_fresh_def by (auto simp: timer_fired_def timer_callback_def)
  have 5: "inv_count (timer_fired t r s)"
    using ic r unfolding inv_count_def by (auto simp: timer_fired_def timer_callback_def settle_count_def)
  show ?thesis using 0 1 2 3 4 5 by (simp add: relay_inv_def)
qed

lemma inv_fire: "relay_inv s \<Longrightarrow> relay_inv (step (Fire t) s)"
  using on_timer_cases[of t s] inv_timer_fired by auto

lemma fold_reject_pending_fields [simp]:
  "simulationSocket (fold reject_pending es s) = simulationSocket s"
  "pendingCommands (fold reject_pending es s) = pendingCommands s"
  "commandIdCounter (fold reject_pending es s) = commandIdCounter s"
  "readyStates (fold reject_pending es s) = readyStates s"
  "next_handle (fold reject_pending es s) = next_handle s"
  "now (fold reject_pending es s) = now s"
  "sent (fold reject_pending es s) = sent s"
  by (induction es arbitrary: s) (simp_all add: reject_pending_def)

lemma fold_reject_pending_calls:
  "settle_calls (fold reject_pending es s) =
     settle_calls s @ map (\<lambda>e. (reject (snd e), Rejected DisconnectedError)) es"
  by (induction es arbitrary: s) (simp_all add: reject_pending_def)

lemma fold_reject_pending_timers:
  "timers (fold reject_pending es s) t = (if t \<in> (timer \<circ> snd) ` set es then None else timers s t)"
  by (induction es arbitrary: s) (auto simp: reject_pending_def)

lemma fold_reject_pending_promises:
  "promises (fold reject_pending es s) p =
     (if p \<in> (reject \<circ> snd) ` set es \<and> promises s p = Some Pending
      then Some (Rejected DisconnectedError) else promises s p)"
  by (induction es arbitrary: s) (auto simp: reject_pending_def)

lemma on_close_fields:
  "simulationSocket (on_close ws s) = (if simulationSocket s = Some ws then None else simulationSocket s)"
  "pendingCommands (on_close ws s) = []"
  "commandIdCounter (on_close ws s) = commandIdCounter s"
  "readyStates (on_close ws s) = readyStates s"
  "next_handle (on_close ws s) = next_handle s"
  "now (on_close ws s) = now s"
  "sent (on_close ws s) = sent s"
  "settle_calls (on_close ws s) =
     settle_calls s @ map (\<lambda>e. (reject (snd e), Rejected DisconnectedError)) (pendingCommands s)"
  "timers (on_close ws s) t =
     (if t \<in> (timer \<circ> snd) ` set (pendingCommands s) then None else timers s t)"
  "promises (on_close ws s) p =
     (if p \<in> (reject \<circ> snd) ` set (pendingCommands s) \<and> promises s p = Some Pending
      then Some (Rejected DisconnectedError) else promises s p)"
  by (simp_all add: on_close_def Let_def fold_reject_pending_calls fold_reject_pending_timers
        fold_reject_pending_promises)

lemma count_distinct_map:
  "distinct (map f xs) \<Longrightarrow> length (filter (\<lambda>e. f e = p) xs) = (if p \<in> f ` set xs then 1 else 0)"
  by (induction xs) auto

lemma distinct_waiters:
  assumes "inv_entries s" "distinct (map fst (pendingCommands s))"
  shows "distinct (map (reject \<circ> snd) (pendingCommands s))"
proof -
  have "distinct (pendingCommands s)" using assms(2) by (rule distinct_map[THEN iffD1, THEN conjunct1])
  moreover have "inj_on (reject \<circ> snd) (set (pendingCommands s))"
  proof (rule inj_onI)
    fix x y assume xy: "x \<in> set (pendingCommands s)" "y \<in> set (pendingCommands s)"
      "(reject \<circ> snd) x = (reject \<circ> snd) y"
    obtain k pc k' pc' where x: "x = (k, pc)" and y: "y = (k', pc')" by (cases x, cases y) auto
    from xy x y have "k = k'" using entries_same_waiter[OF assms(1)] by auto
    with xy x y assms(2) show "x = y" by (auto dest: eq_key_imp_eq_value)
  qed
  ultimately show ?thesis by (simp add: distinct_map)
qed

lemma settle_count_close:
  assumes "inv_entries s" "distinct (map fst (pendingCommands s))"
  shows "settle_count p (on_close ws s) =
           settle_count p s + (if p \<in> (reject \<circ> snd) ` set (pendingCommands s) then 1 else 0)"
proof -
  have "length (filter (\<lambda>e. (reject \<circ> snd) e = p) (pendingCommands s)) =
          (if p \<in> (reject \<circ> snd) ` set (pendingCommands s) then 1 else 0)"
    using count_distinct_map[OF distinct_waiters[OF assms]] .
  then show ?thesis
    by (simp add: settle_count_def on_close_fields filter_map comp_def)
qed

lemma inv_close_handler:
  assumes "relay_inv s"
  shows "relay_inv (on_close ws s)"
proof -
  from assms have ie: "inv_entries s" and it: "inv_timers s" and ip: "inv_pending s"
    and ifr: "inv_fresh s" and ic: "inv_count s" and d: "distinct (map fst (pendingCommands s))"
    by (simp_all add: relay_inv_def)
  have tw: "(\<lambda>e. timer (snd e)) ` set (pendingCommands s) = (\<lambda>e. reject (snd e)) ` set (pendingCommands s)"
    using ie unfolding inv_entries_def by (auto simp: image_iff) (metis snd_conv)+
  have pend: "promises s p = Some Pending" if "p \<in> (\<lambda>e. reject (snd e)) ` set (pendingCommands s)" for p
    using that entry_pending[OF ie it] by auto
  have 1: "inv_entries (on_close ws s)"
    by (simp add: inv_entries_def on_close_fields)
  have 2: "inv_timers (on_close ws s)"
    using it unfolding inv_timers_def by (auto simp: on_close_fields tw split: if_splits)
  have 3: "inv_pending (on_close ws s)"
    using ip unfolding inv_pending_def by (auto simp: on_close_fields tw split: if_splits)
  have 4: "inv_fresh (on_close ws s)"
    using ifr pend unfolding inv_fresh_def by (auto simp: on_close_fields)
  have 5: "inv_count (on_close ws s)"
    using ic pend unfolding inv_count_def
    by (auto simp: settle_count_close[OF ie d] on_close_fields comp_def)
  show ?thesis using 1 2 3 4 5 by (simp add: relay_inv_def on_close_fields)
qed

lemma inv_other_fields:
  assumes "relay_inv s"
  shows "relay_inv (s\<lparr> readyStates := rs \<rparr>)" "relay_inv (s\<lparr> now := n \<rparr>)"
        "relay_inv (s\<lparr> simulationSocket := so \<rparr>)"
  using assms
  by (simp_all add: relay_inv_def inv_entries_def inv_timers_def inv_pending_def
        inv_fresh_def inv_count_def settle_count_def)

lemma inv_step: "relay_inv s \<Longrightarrow> relay_inv (step e s)"
proof (cases e)
  case (Send action params timeout_arg)
  then show "relay_inv s \<Longrightarrow> relay_inv (step e s)" using inv_send by simp
next
  case (Message ws parsed)
  then show "relay_inv s \<Longrightarrow> relay_inv (step e s)" using inv_message by simp
next
  case (Fire t)
  then show "relay_inv s \<Longrightarrow> relay_inv (step e s)" using inv_fire by simp
next
  case (Close ws)
  then show "relay_inv s \<Longrightarrow> relay_inv (step e s)"
    using inv_close_handler inv_other_fields(1) by simp
qed (simp_all add: inv_other_fields on_connection_def)

lemma run_Nil [simp]: "run [] s = s"
  by (simp add: run_def)

lemma run_Cons [simp]: "run (e # es) s = run es (step e s)"
  by (simp add: run_def)

lemma run_append [simp]: "run (es @ es') s = run es' (run es s)"
  by (simp add: run_def)

lemma inv_run: "relay_inv s \<Longrightarrow> relay_inv (run es s)"
  by (induction es arbitrary: s) (simp_all add: inv_step)

lemma inv_reachable: "relay_inv (run es relay_init)"
  by (simp add: inv_run relay_inv_init)

subsection \<open>The id counter and the states without id reuse\<close>

lemma js_increment_below: "js_increment n < ID_LIMIT \<Longrightarrow> js_increment n = Suc n"
  by (simp add: js_increment_def ID_LIMIT_def split: if_splits)

lemma send_rejected_fields [simp]:
  "simulationSocket (send_rejected s) = simulationSocket s"
  "pendingCommands (send_rejected s) = pendingCommands s"
  "commandIdCounter (send_rejected s) = commandIdCounter s"
  "readyStates (send_rejected s) = readyStates s"
  "timers (send_rejected s) = timers s"
  "now (send_rejected s) = now s"
  "sent (send_rejected s) = sent s"
  "next_handle (send_rejected s) = Suc (next_handle s)"
  by (simp_all add: send_rejected_def)

lemma send_accepted_fields [simp]:
  "simulationSocket (send_accepted ws a p t s) = simulationSocket s"
  "pendingCommands (send_accepted ws a p t s) =
     AList.update (commandIdCounter s)
       \<lparr> resolve = next_handle s, reject = next_handle s, timer = next_handle s \<rparr> (pendingCommands s)"
  "commandIdCounter (send_accepted ws a p t s) = js_increment (commandIdCounter s)"
  "readyStates (send_accepted ws a p t s) = readyStates s"
  "timers (send_accepted ws a p t s) = (timers s)(next_handle s \<mapsto> new_timer a t s)"
  "promises (send_accepted ws a p t s) = (promises s)(next_handle s \<mapsto> Pending)"
  "settle_calls (send_accepted ws a p t s) = settle_calls s"
  "now (send_accepted ws a p t s) = now s"
  "sent (send_accepted ws a p t s) =
     sent s @ [(ws, \<lparr> f_id = commandIdCounter s, f_action = a, f_params = p \<rparr>)]"
  "next_handle (send_accepted ws a p t s) = Suc (next_handle s)"
  by (simp_all add: send_accepted_def)

lemma message_matched_fields [simp]:
  "simulationSocket (message_matched k pc res s) = simulationSocket s"
  "pendingCommands (message_matched k pc res s) = AList.delete k (pendingCommands s)"
  "commandIdCounter (message_matched k pc res s) = commandIdCounter s"
  "readyStates (message_matched k pc res s) = readyStates s"
  "timers (message_matched k pc res s) = (timers s)(timer pc := None)"
  "now (message_matched k pc res s) = now s"
  "sent (message_matched k pc res s) = sent s"
  "next_handle (message_matched k pc res s) = next_handle s"
  "settle_calls (message_matched k pc res s) = settle_calls s @ [(resolve pc, Resolved res)]"
  "promises (message_matched k pc res s) =
     (if promises s (resolve pc) = Some Pending then (promises s)(resolve pc \<mapsto> Resolved res)
      else promises s)"
  by (simp_all add: message_matched_def)

lemma timer_fired_fields [simp]:
  "simulationSocket (timer_fired t r s) = simulationSocket s"
  "pendingCommands (timer_fired t r s) = AList.delete (t_id r) (pendingCommands s)"
  "commandIdCounter (timer_fired t r s) = commandIdCounter s"
  "readyStates (timer_fired t r s) = readyStates s"
  "timers (timer_fired t r s) = (timers s)(t := None)"
  "now (timer_fired t r s) = now s"
  "sent (timer_fired t r s) = sent s"
  "next_handle (timer_fired t r s) = next_handle s"
  "settle_calls (timer_fired t r s) =
     settle_calls s @ [(t_reject r, Rejected (TimeoutError (t_action r) (t_timeout r)))]"
  "promises (timer_fired t r s) =
     (if promises s (t_reject r) = Some Pending
      then (promises s)(t_reject r \<mapsto> Rejected (TimeoutError (t_action r) (t_timeout r)))
      else promises s)"
  by (simp_all add: timer_fired_def timer_callback_def)

lemma step_cases:
  obtains (same) "step e s = s"
  | (connection) ws where "e = Connection ws" "step e s = s\<lparr> readyStates := (readyStates s)(ws := OPEN), simulationSocket := Some ws \<rparr>"
  | (socketstate) ws rs where "e = SocketState ws rs" "step e s = s\<lparr> readyStates := (readyStates s)(ws := rs) \<rparr>"
  | (advance) d where "e = Advance d" "step e s = s\<lparr> now := now s + d \<rparr>"
  | (rejected) a p t where "e = Send a p t" "\<not> sim_connected s" "step e s = send_rejected s"
  | (accepted) a p t ws where "e = Send a p t" "simulationSocket s = Some ws" "readyStates s ws = OPEN"
       "step e s = send_accepted ws a p t s"
  | (matched) ws msg k pc where "e = Message ws (Some msg)" "get_prop msg ''id'' = Inr (Num (of_nat k))"
       "(k, pc) \<in> set (pendingCommands s)" "step e s = message_matched k pc (read_prop msg ''result'') s"
  | (fired) t r where "e = Fire t" "timers s t = Some r" "t_deadline r \<le> now s" "step e s = timer_fired t r s"
  | (closed) ws where "e = Close ws" "step e s = on_close ws (s\<lparr> readyStates := (readyStates s)(ws := CLOSED) \<rparr>)"
proof (cases e)
  case (Connection ws)
  then show ?thesis using connection by (simp add: on_connection_def)
next
  case (SocketState ws rs)
  then show ?thesis using socketstate by simp
next
  case (Message ws parsed)
  then show ?thesis using on_message_cases[of parsed s] same matched by auto
next
  case (Close ws)
  then show ?thesis using closed by simp
next
  case (Send a p t)
  show ?thesis
  proof (cases "sim_connected s")
    case True
    then obtain ws where "simulationSocket s = Some ws" "readyStates s ws = OPEN"
      by (auto simp: sim_connected_def split: option.splits)
    with Send show ?thesis using accepted[of a p t ws] by (simp add: send_cases)
  next
    case False
    with Send show ?thesis using rejected[of a p t]
      by (auto simp: send_cases sim_connected_def split: option.splits)
  qed
next
  case (Fire t)
  then show ?thesis using on_timer_cases[of t s] same fired by auto
next
  case (Advance d)
  then show ?thesis using advance by simp
qed

lemma inv_ids_step: "inv_ids s \<Longrightarrow> inv_ids (step e s)"
proof (cases e s rule: step_cases)
  case (accepted a p t ws)
  assume "inv_ids s"
  then show ?thesis using accepted
    by (auto simp: inv_ids_def allocated_ids_def js_increment_def ID_LIMIT_def min_def)
next
  case (closed ws)
  assume "inv_ids s"
  then show ?thesis using closed by (simp add: inv_ids_def allocated_ids_def on_close_fields)
qed (auto simp: inv_ids_def allocated_ids_def)

lemma inv_ids_run: "inv_ids s \<Longrightarrow> inv_ids (run es s)"
  by (induction es arbitrary: s) (simp_all add: inv_ids_step)

lemma inv_ids_init: "inv_ids relay_init"
  by (simp add: inv_ids_def allocated_ids_def relay_init_def)

lemma inv_tight_step:
  assumes "relay_inv s" "inv_tight s"
  shows "inv_tight (step e s)"
proof (cases e s rule: step_cases)
  case (accepted a p t ws)
  from assms(1) have d: "distinct (map fst (pendingCommands s))" by (simp add: relay_inv_def)
  from assms(1) have f: "timers s (next_handle s) = None"
    using fresh_handle by (auto simp: relay_inv_def)
  show ?thesis
    unfolding inv_tight_def
  proof (intro impI)
    assume lt: "commandIdCounter (step e s) < ID_LIMIT"
    with accepted have c: "js_increment (commandIdCounter s) = Suc (commandIdCounter s)"
      using js_increment_below by simp
    with lt accepted have "commandIdCounter s < ID_LIMIT" by simp
    with assms(2) have t: "\<forall>k pc. (k, pc) \<in> set (pendingCommands s) \<longrightarrow> k < commandIdCounter s"
      "\<forall>t r. timers s t = Some r \<longrightarrow> (\<exists>pc. (t_id r, pc) \<in> set (pendingCommands s) \<and> reject pc = t)"
      by (simp_all add: inv_tight_def)
    show "(\<forall>k pc. (k, pc) \<in> set (pendingCommands (step e s)) \<longrightarrow> k < commandIdCounter (step e s)) \<and>
      (\<forall>t r. timers (step e s) t = Some r \<longrightarrow>
           (\<exists>pc. (t_id r, pc) \<in> set (pendingCommands (step e s)) \<and> reject pc = t))"
    proof (intro conjI allI impI)
      fix k pc assume "(k, pc) \<in> set (pendingCommands (step e s))"
      then show "k < commandIdCounter (step e s)"
        using accepted c t(1) by (auto simp: in_set_update[OF d] less_Suc_eq)
    next
      fix t' r assume tr: "timers (step e s) t' = Some r"
      show "\<exists>pc. (t_id r, pc) \<in> set (pendingCommands (step e s)) \<and> reject pc = t'"
      proof (cases "t' = next_handle s")
        case True
        with tr accepted show ?thesis by (auto simp: in_set_update[OF d] new_timer_def)
      next
        case False
        with tr accepted have "timers s t' = Some r" by simp
        with t(2) obtain pc where pc: "(t_id r, pc) \<in> set (pendingCommands s)" "reject pc = t'" by blast
        with t(1) have "t_id r \<noteq> commandIdCounter s" by auto
        with pc accepted show ?thesis by (auto simp: in_set_update[OF d])
      qed
    qed
  qed
next
  case (matched ws msg k pc)
  from assms(1) have ie: "inv_entries s" by (simp add: relay_inv_def)
  obtain r where r: "timers s (reject pc) = Some r" "t_id r = k" "resolve pc = reject pc" "timer pc = reject pc"
    using entry_timer[OF ie matched(3)] .
  show ?thesis
    unfolding inv_tight_def
  proof (intro impI conjI allI)
    fix k' pc' assume "commandIdCounter (step e s) < ID_LIMIT" "(k', pc') \<in> set (pendingCommands (step e s))"
    then show "k' < commandIdCounter (step e s)"
      using assms(2) matched by (auto simp: inv_tight_def set_delete)
  next
    fix t' r' assume lt: "commandIdCounter (step e s) < ID_LIMIT" and tr: "timers (step e s) t' = Some r'"
    with matched r have ne: "t' \<noteq> reject pc" and old: "timers s t' = Some r'"
      by (auto split: if_splits)
    from lt matched have "commandIdCounter s < ID_LIMIT" by simp
    with assms(2) have "\<forall>t r. timers s t = Some r \<longrightarrow> (\<exists>pc. (t_id r, pc) \<in> set (pendingCommands s) \<and> reject pc = t)"
      by (simp add: inv_tight_def)
    with old obtain pc' where pc': "(t_id r', pc') \<in> set (pendingCommands s)" "reject pc' = t'"
      by blast
    have "t_id r' \<noteq> k"
    proof
      assume "t_id r' = k"
      with pc' matched(3) assms(1) have "pc' = pc"
        by (auto simp: relay_inv_def dest: eq_key_imp_eq_value)
      with pc' ne show False by simp
    qed
    with pc' matched show "\<exists>pc. (t_id r', pc) \<in> set (pendingCommands (step e s)) \<and> reject pc = t'"
      by (auto simp: set_delete)
  qed
next
  case (fired t r)
  show ?thesis
    unfolding inv_tight_def
  proof (intro impI conjI allI)
    fix k' pc' assume "commandIdCounter (step e s) < ID_LIMIT" "(k', pc') \<in> set (pendingCommands (step e s))"
    then show "k' < commandIdCounter (step e s)"
      using assms(2) fired by (auto simp: inv_tight_def set_delete)
  next
    fix t' r' assume lt: "commandIdCounter (step e s) < ID_LIMIT" and tr: "timers (step e s) t' = Some r'"
    with fired have ne: "t' \<noteq> t" and old: "timers s t' = Some r'"
      by (auto split: if_splits)
    from lt fired have "commandIdCounter s < ID_LIMIT" by simp
    with assms(2) have tt: "\<forall>t r. timers s t = Some r \<longrightarrow> (\<exists>pc. (t_id r, pc) \<in> set (pendingCommands s) \<and> reject pc = t)"
      by (simp add: inv_tight_def)
    with old obtain pc' where pc': "(t_id r', pc') \<in> set (pendingCommands s)" "reject pc' = t'"
      by blast
    from tt fired(2) obtain pc where pc: "(t_id r, pc) \<in> set (pendingCommands s)" "reject pc = t"
      by blast
    have "t_id r' \<noteq> t_id r"
    proof
      assume "t_id r' = t_id r"
      with pc' pc assms(1) have "pc' = pc"
        by (auto simp: relay_inv_def dest: eq_key_imp_eq_value)
      with pc' pc ne show False by simp
    qed
    with pc' fired show "\<exists>pc. (t_id r', pc) \<in> set (pendingCommands (step e s)) \<and> reject pc = t'"
      by (auto simp: set_delete)
  qed
next
  case (closed ws)
  from assms(1) have ie: "inv_entries s" by (simp add: relay_inv_def)
  show ?thesis
    unfolding inv_tight_def
  proof (intro impI conjI allI)
    fix k' pc' assume "(k', pc') \<in> set (pendingCommands (step e s))"
    then show "k' < commandIdCounter (step e s)" using closed by (simp add: on_close_fields)
  next
    fix t' r' assume lt: "commandIdCounter (step e s) < ID_LIMIT" and tr: "timers (step e s) t' = Some r'"
    from tr closed have old: "timers s t' = Some r'" and nin: "t' \<notin> (timer \<circ> snd) ` set (pendingCommands s)"
      by (auto simp: on_close_fields split: if_splits)
    from lt closed have "commandIdCounter s < ID_LIMIT" by (simp add: on_close_fields)
    with assms(2) have "\<forall>t r. timers s t = Some r \<longrightarrow> (\<exists>pc. (t_id r, pc) \<in> set (pendingCommands s) \<and> reject pc = t)"
      by (simp add: inv_tight_def)
    with old obtain pc' where pc': "(t_id r', pc') \<in> set (pendingCommands s)" "reject pc' = t'"
      by blast
    from entry_timer[OF ie pc'(1)] have "timer pc' = reject pc'" by auto
    with pc' nin have False by (force simp: image_iff)
    then show "\<exists>pc. (t_id r', pc) \<in> set (pendingCommands (step e s)) \<and> reject pc = t'" ..
  qed
qed (use assms(2) in \<open>auto simp: inv_tight_def\<close>)

lemma inv_tight_init: "inv_tight relay_init"
  by (simp add: inv_tight_def relay_init_def)

lemma inv_all_run:
  "relay_inv s \<Longrightarrow> inv_tight s \<Longrightarrow> relay_inv (run es s) \<and> inv_tight (run es s)"
  by (induction es arbitrary: s) (simp_all add: inv_step inv_tight_step)

lemma inv_tight_reachable: "inv_tight (run es relay_init)"
  using inv_all_run[OF relay_inv_init inv_tight_init] by blast

subsection \<open>Connection loss and connection replacement\<close>

text \<open>
  Claim C2. In every state the relay can reach, when a connection closes (the registered
  one in particular) with K entries in \<open>pendingCommands\<close>: each of the K waiters was
  pending and is now rejected with the disconnect error, its \<open>reject\<close> function has been
  called exactly once and no settling function of it before, its timer was running and is
  now cleared, the table is empty, and exactly K settling calls were made. As long as the
  id counter has not reached \<open>2^53\<close>, no timer at all is left running and no promise
  handed out by the relay is left pending.
\<close>

theorem close_rejects_every_pending_waiter:
  fixes es :: "event list" and ws :: sock
  defines "s \<equiv> run es relay_init"
  defines "s' \<equiv> step (Close ws) s"
  shows "pendingCommands s' = []
       \<and> (\<forall>entry \<in> set (pendingCommands s).
             promises s (reject (snd entry)) = Some Pending
           \<and> promises s' (reject (snd entry)) = Some (Rejected DisconnectedError)
           \<and> settle_count (reject (snd entry)) s = 0
           \<and> settle_count (reject (snd entry)) s' = 1
           \<and> timers s (timer (snd entry)) \<noteq> None
           \<and> timers s' (timer (snd entry)) = None)
       \<and> length (settle_calls s') = length (settle_calls s) + length (pendingCommands s)
       \<and> (simulationSocket s = Some ws \<longrightarrow> simulationSocket s' = None)
       \<and> (commandIdCounter s < 9007199254740992 \<longrightarrow>
             (\<forall>t. timers s' t = None) \<and> (\<forall>p. promises s' p \<noteq> Some Pending))"
proof -
  have inv: "relay_inv s" and tight: "inv_tight s"
    unfolding s_def by (rule inv_reachable, rule inv_tight_reachable)
  from inv have ie: "inv_entries s" and it: "inv_timers s" and ic: "inv_count s"
    and d: "distinct (map fst (pendingCommands s))" by (simp_all add: relay_inv_def)
  let ?s0 = "s\<lparr> readyStates := (readyStates s)(ws := CLOSED) \<rparr>"
  have s': "s' = on_close ws ?s0" by (simp add: s'_def)
  have inv0: "relay_inv ?s0" using inv by (rule inv_other_fields)
  then have ie0: "inv_entries ?s0" and d0: "distinct (map fst (pendingCommands ?s0))"
    by (simp_all add: relay_inv_def)
  have inv': "relay_inv s'" unfolding s' using inv0 by (rule inv_close_handler)
  have a: "pendingCommands s' = []" by (simp add: s' on_close_fields)
  have b: "\<forall>entry \<in> set (pendingCommands s).
             promises s (reject (snd entry)) = Some Pending
           \<and> promises s' (reject (snd entry)) = Some (Rejected DisconnectedError)
           \<and> settle_count (reject (snd entry)) s = 0
           \<and> settle_count (reject (snd entry)) s' = 1
           \<and> timers s (timer (snd entry)) \<noteq> None
           \<and> timers s' (timer (snd entry)) = None"
  proof
    fix entry assume m: "entry \<in> set (pendingCommands s)"
    obtain k pc where e: "entry = (k, pc)" by (cases entry)
    obtain r where r: "timers s (reject pc) = Some r" "timer pc = reject pc"
      using entry_timer[OF ie m[unfolded e]] by metis
    have p: "promises s (reject pc) = Some Pending" using entry_pending[OF ie it m[unfolded e]] .
    have c0: "settle_count (reject pc) s = 0" using ic p by (simp add: inv_count_def)
    have mem: "reject pc \<in> (reject \<circ> snd) ` set (pendingCommands s)"
      using m e by force
    have mem': "timer pc \<in> (timer \<circ> snd) ` set (pendingCommands s)"
      using m e by force
    have c1: "settle_count (reject pc) s' = 1"
      using settle_count_close[OF ie0 d0, of "reject pc" ws] mem c0
      by (simp add: s' settle_count_def)
    show "promises s (reject (snd entry)) = Some Pending
           \<and> promises s' (reject (snd entry)) = Some (Rejected DisconnectedError)
           \<and> settle_count (reject (snd entry)) s = 0
           \<and> settle_count (reject (snd entry)) s' = 1
           \<and> timers s (timer (snd entry)) \<noteq> None
           \<and> timers s' (timer (snd entry)) = None"
      using p c0 c1 r mem mem' by (simp add: e s' on_close_fields)
  qed
  have c: "length (settle_calls s') = length (settle_calls s) + length (pendingCommands s)"
    by (simp add: s' on_close_fields)
  have dd: "simulationSocket s = Some ws \<longrightarrow> simulationSocket s' = None"
    by (simp add: s' on_close_fields)
  have e: "commandIdCounter s < 9007199254740992 \<longrightarrow>
             (\<forall>t. timers s' t = None) \<and> (\<forall>p. promises s' p \<noteq> Some Pending)"
  proof
    assume lt: "commandIdCounter s < 9007199254740992"
    have t': "inv_tight s'" unfolding s'_def using inv tight by (rule inv_tight_step)
    have "commandIdCounter s' = commandIdCounter s" by (simp add: s' on_close_fields)
    with lt t' a have nt: "\<forall>t. timers s' t = None"
      unfolding inv_tight_def ID_LIMIT_def by (metis empty_iff empty_set option.exhaust)
    moreover from inv' have "inv_pending s'" by (simp add: relay_inv_def)
    ultimately show "(\<forall>t. timers s' t = None) \<and> (\<forall>p. promises s' p \<noteq> Some Pending)"
      unfolding inv_pending_def by blast
  qed
  from a b c dd e show ?thesis by blast
qed

lemma two_pending_state:
  "simulationSocket (run two_pending relay_init) = Some 1"
  "pendingCommands (run two_pending relay_init) =
     [(0, \<lparr> resolve = 0, reject = 0, timer = 0 \<rparr>), (1, \<lparr> resolve = 1, reject = 1, timer = 1 \<rparr>)]"
  "commandIdCounter (run two_pending relay_init) = 2"
  by (simp_all add: two_pending_def relay_init_def on_connection_def send_cases send_accepted_def
        js_increment_def)

theorem close_rejects_every_pending_waiter_witness:
  "pendingCommands (step (Close 1) (run two_pending relay_init)) = []
   \<and> promises (step (Close 1) (run two_pending relay_init)) 0 = Some (Rejected DisconnectedError)
   \<and> promises (step (Close 1) (run two_pending relay_init)) 1 = Some (Rejected DisconnectedError)
   \<and> settle_count 0 (step (Close 1) (run two_pending relay_init)) = 1
   \<and> settle_count 1 (step (Close 1) (run two_pending relay_init)) = 1
   \<and> simulationSocket (step (Close 1) (run two_pending relay_init)) = None
   \<and> (\<forall>t. timers (step (Close 1) (run two_pending relay_init)) t = None)"
  using close_rejects_every_pending_waiter [where es = two_pending and ws = 1]
  by (simp add: two_pending_state)

text \<open>
  Claim C1, as stated, fails. Connection 1 is replaced by connection 2, a command is
  sent (over connection 2), and then the replaced connection 1 closes: connection 2
  stays registered, yet the waiter is rejected with the disconnect error and the table is
  cleared.
\<close>

theorem close_of_replaced_connection_counterexample:
  "simulationSocket (run replaced_then_sent relay_init) = Some 2
   \<and> promises (run replaced_then_sent relay_init) 0 = Some Pending
   \<and> pendingCommands (run replaced_then_sent relay_init) = [(0, \<lparr> resolve = 0, reject = 0, timer = 0 \<rparr>)]
   \<and> simulationSocket (step (Close 1) (run replaced_then_sent relay_init)) = Some 2
   \<and> promises (step (Close 1) (run replaced_then_sent relay_init)) 0 = Some (Rejected DisconnectedError)
   \<and> pendingCommands (step (Close 1) (run replaced_then_sent relay_init)) = []"
  by (simp add: replaced_then_sent_def relay_init_def on_connection_def send_cases send_accepted_def
        js_increment_def on_close_def Let_def reject_pending_def settle_def clearTimeout_def)

text \<open>
  Claim C1, amended. In every state the relay can reach, a new connection only replaces
  the stored socket: it settles no waiter and leaves the promises, the timers and the
  pending table as they are. The close of any connection, the registered one or one
  replaced earlier, rejects every pending waiter with the disconnect error and clears
  the table; only the reset of the stored socket is limited to the close of the
  registered connection.
\<close>

theorem connection_replacement_and_close:
  fixes es :: "event list" and ws :: sock
  defines "s \<equiv> run es relay_init"
  shows "promises (step (Connection ws) s) = promises s
       \<and> settle_calls (step (Connection ws) s) = settle_calls s
       \<and> timers (step (Connection ws) s) = timers s
       \<and> pendingCommands (step (Connection ws) s) = pendingCommands s
       \<and> simulationSocket (step (Connection ws) s) = Some ws
       \<and> pendingCommands (step (Close ws) s) = []
       \<and> settle_calls (step (Close ws) s) =
           settle_calls s @ map (\<lambda>entry. (reject (snd entry), Rejected DisconnectedError)) (pendingCommands s)
       \<and> (\<forall>entry \<in> set (pendingCommands s).
             promises s (reject (snd entry)) = Some Pending
           \<and> promises (step (Close ws) s) (reject (snd entry)) = Some (Rejected DisconnectedError))
       \<and> simulationSocket (step (Close ws) s) =
           (if simulationSocket s = Some ws then None else simulationSocket s)"
proof -
  have inv: "relay_inv s" unfolding s_def by (rule inv_reachable)
  then have ie: "inv_entries s" and it: "inv_timers s" by (simp_all add: relay_inv_def)
  have "\<forall>entry \<in> set (pendingCommands s).
             promises s (reject (snd entry)) = Some Pending
           \<and> promises (step (Close ws) s) (reject (snd entry)) = Some (Rejected DisconnectedError)"
  proof
    fix entry assume m: "entry \<in> set (pendingCommands s)"
    obtain k pc where e: "entry = (k, pc)" by (cases entry)
    have p: "promises s (reject pc) = Some Pending" using entry_pending[OF ie it m[unfolded e]] .
    have mem: "reject pc \<in> (reject \<circ> snd) ` set (pendingCommands s)" using m e by force
    show "promises s (reject (snd entry)) = Some Pending
           \<and> promises (step (Close ws) s) (reject (snd entry)) = Some (Rejected DisconnectedError)"
      using p mem by (simp add: e on_close_fields)
  qed
  then show ?thesis by (simp add: on_connection_def on_close_fields)
qed

theorem connection_replacement_and_close_witness:
  "pendingCommands (step (Connection 2) (run two_pending relay_init)) =
     [(0, \<lparr> resolve = 0, reject = 0, timer = 0 \<rparr>), (1, \<lparr> resolve = 1, reject = 1, timer = 1 \<rparr>)]
   \<and> settle_calls (step (Connection 2) (run two_pending relay_init)) = []
   \<and> simulationSocket (step (Connection 2) (run two_pending relay_init)) = Some 2
   \<and> promises (step (Close 7) (run two_pending relay_init)) 0 = Some (Rejected DisconnectedError)
   \<and> promises (step (Close 7) (run two_pending relay_init)) 1 = Some (Rejected DisconnectedError)
   \<and> simulationSocket (step (Close 7) (run two_pending relay_init)) = Some 1
   \<and> simulationSocket (step (Close 1) (run two_pending relay_init)) = None"
  using connection_replacement_and_close [where es = two_pending and ws = 2] connection_replacement_and_close [where es = two_pending and ws = 7]
        connection_replacement_and_close [where es = two_pending and ws = 1]
  by (simp add: two_pending_state)
     (simp add: two_pending_def relay_init_def on_connection_def send_cases send_accepted_def)

subsection \<open>Correlation ids\<close>

lemma sent_step: "\<exists>xs. sent (step e s) = sent s @ xs"
proof (cases e s rule: step_cases)
  case (closed ws)
  then show ?thesis by (simp add: on_close_fields)
qed (auto simp: send_accepted_def send_rejected_def)

lemma sent_run: "\<exists>xs. sent (run es s) = sent s @ xs"
proof (induction es arbitrary: s)
  case Nil
  then show ?case by simp
next
  case (Cons e es)
  obtain xs where "sent (step e s) = sent s @ xs" using sent_step by blast
  moreover obtain ys where "sent (run es (step e s)) = sent (step e s) @ ys" using Cons.IH by blast
  ultimately show ?case by simp
qed

lemma sent_unchanged:
  assumes "(\<forall>a p t. e \<noteq> Send a p t) \<or> \<not> sim_connected s"
  shows "sent (step e s) = sent s"
proof (cases e s rule: step_cases)
  case (closed ws)
  then show ?thesis by (simp add: on_close_fields)
next
  case (accepted a p t ws)
  with assms show ?thesis by (simp add: sim_connected_def)
qed (auto simp: send_rejected_def)

lemma sent_accepted:
  assumes "sim_connected s"
  shows "allocated_ids (step (Send a p t) s) = allocated_ids s @ [commandIdCounter s]"
proof -
  obtain ws where "simulationSocket s = Some ws" "readyStates s ws = OPEN"
    using assms by (auto simp: sim_connected_def split: option.splits)
  then show ?thesis by (simp add: send_cases send_accepted_def allocated_ids_def)
qed

text \<open>
  Claim C9. Over any sequence of events (sends, results, timeouts, connections, replaced
  connections, closes), as long as no more than \<open>2^53 + 1\<close> ids have been allocated: the
  ids allocated so far are \<open>0, 1, 2, ...\<close> in this order, hence strictly increasing and
  without repetition; whatever happens next, these ids stay the first ones allocated; a
  send over an open connection allocates the next number, which is larger than every id
  before it; and no other event, and no send that is refused, allocates an id.
\<close>

theorem correlation_ids_strictly_increasing:
  fixes es es' :: "event list"
  defines "s \<equiv> run es relay_init"
  defines "ids \<equiv> allocated_ids s"
  assumes few: "length ids \<le> 9007199254740993"
  shows "ids = [0..<length ids]
       \<and> sorted_wrt (<) ids
       \<and> distinct ids
       \<and> take (length ids) (allocated_ids (run es' s)) = ids
       \<and> (sim_connected s \<and> length ids \<le> 9007199254740992 \<longrightarrow>
            allocated_ids (step (Send action params timeout_arg) s) = ids @ [length ids])
       \<and> ((\<forall>a p t. e \<noteq> Send a p t) \<or> \<not> sim_connected s \<longrightarrow> allocated_ids (step e s) = ids)"
proof -
  have inv: "inv_ids s" unfolding s_def using inv_ids_run[OF inv_ids_init] .
  then have "ids = map (\<lambda>i. min i 9007199254740992) [0..<length ids]"
    by (simp add: inv_ids_def ids_def ID_LIMIT_def allocated_ids_def)
  also have "\<dots> = map (\<lambda>i. i) [0..<length ids]"
    using few by (intro map_cong) auto
  finally have i: "ids = [0..<length ids]" by simp
  have "sorted_wrt (<) ids" "distinct ids"
    by (subst i, simp)+
  moreover have "take (length ids) (allocated_ids (run es' s)) = ids"
    using sent_run[of es' s] by (auto simp: allocated_ids_def ids_def)
  moreover have "allocated_ids (step (Send action params timeout_arg) s) = ids @ [length ids]"
    if "sim_connected s" "length ids \<le> 9007199254740992"
  proof -
    have "commandIdCounter s = length ids"
      using inv that(2) by (simp add: inv_ids_def ids_def ID_LIMIT_def allocated_ids_def)
    then show ?thesis using sent_accepted[OF that(1)] by (simp add: ids_def)
  qed
  moreover have "allocated_ids (step e s) = ids"
    if "(\<forall>a p t. e \<noteq> Send a p t) \<or> \<not> sim_connected s"
    using sent_unchanged[OF that] by (simp add: allocated_ids_def ids_def)
  ultimately show ?thesis using i by blast
qed

lemma mixed_run_ids: "allocated_ids (run mixed_run relay_init) = [0, 1, 2]"
  by (simp add: mixed_run_def allocated_ids_def relay_init_def on_connection_def send_cases
        send_accepted_def send_rejected_def js_increment_def on_timer_def timer_callback_def
        on_close_def reject_pending_def settle_def clearTimeout_def new_timer_def
        resolved_timeout_def timer_delay_def TIMEOUT_MAX_def)

lemma mixed_run_connected: "sim_connected (run mixed_run relay_init)"
  by (simp add: mixed_run_def sim_connected_def relay_init_def on_connection_def send_cases
        send_accepted_def send_rejected_def js_increment_def on_timer_def timer_callback_def
        on_close_def reject_pending_def settle_def clearTimeout_def new_timer_def
        resolved_timeout_def timer_delay_def TIMEOUT_MAX_def)

theorem correlation_ids_strictly_increasing_witness:
  "allocated_ids (run mixed_run relay_init) = [0, 1, 2]
   \<and> sorted_wrt (<) (allocated_ids (run mixed_run relay_init))
   \<and> distinct (allocated_ids (run mixed_run relay_init))
   \<and> take 3 (allocated_ids (run [Close 3, Connection 4, Send ''reset_robot'' (Obj []) None]
                (run mixed_run relay_init))) = [0, 1, 2]
   \<and> allocated_ids (step (Send ''reset_robot'' (Obj []) None) (run mixed_run relay_init)) = [0, 1, 2, 3]
   \<and> allocated_ids (step (Close 3) (run mixed_run relay_init)) = [0, 1, 2]"
  using correlation_ids_strictly_increasing [of mixed_run "[Close 3, Connection 4, Send ''reset_robot'' (Obj []) None]"
              "''reset_robot''" "Obj []" None "Close 3"]
  by (simp add: mixed_run_ids mixed_run_connected numeral_3_eq_3)

subsection \<open>Timeouts\<close>













lemma one_command_state:
  "sim_connected (run one_command relay_init)"
  "commandIdCounter (run one_command relay_init) = 0"
  "now (run one_command relay_init) = 0"
  "fst (sendCommandToSim ''move_base'' (Obj []) (Some 30000) (run one_command relay_init)) = 0"
  by (simp_all add: one_command_def relay_init_def on_connection_def sim_connected_def send_cases)






section \<open>Properties of the agent loop\<close>




lemma thinking_count_append [simp]:
  "thinking_count (xs @ ys) = thinking_count xs + thinking_count ys"
  by (simp add: thinking_count_def)

lemma thinking_count_simps [simp]:
  "thinking_count [] = 0"
  "thinking_count (e # evs) = (if e = Status ''Thinking...'' then 1 else 0) + thinking_count evs"
  by (simp_all add: thinking_count_def)

lemma thinking_count_block_events [simp]: "thinking_count (block_events bs) = 0"
  by (induction bs rule: block_events.induct) (simp_all add: thinking_count_def)




subsection \<open>The requests made to the model\<close>

lemma with_requests_simps [simp]:
  "messages_create (with_requests env) wl h =
     (fst (messages_create env (fst wl) h), (snd (messages_create env (fst wl) h), snd wl @ [(fst wl, h)]))"
  "sendCommand (with_requests env) wl a p t =
     (fst (sendCommand env (fst wl) a p t), (snd (sendCommand env (fst wl) a p t), snd wl))"
  "abort_called (with_requests env) wl = abort_called env (fst wl)"
  by (simp_all add: with_requests_def)




















subsection \<open>Cancellation\<close>

lemma emit_fields [simp]:
  "history (emit e st) = history st"
  "finalText (emit e st) = finalText st"
  "events (emit e st) = events st @ [e]"
  "aborted (emit e st) = aborted st"
  "world (emit e st) = world st"
  by (simp_all add: emit_def)

lemma loop_ok_updates [simp]:
  "loop_ok (st\<lparr> aborted := b \<rparr>) = loop_ok st"
  "loop_ok (st\<lparr> history := h \<rparr>) = loop_ok st"
  "loop_ok (st\<lparr> finalText := t \<rparr>) = loop_ok st"
  by (simp_all add: loop_ok_def)

lemma tool_request_action:
  "tool_request toolName toolInput ovr = Inr (Some (a, p, t)) \<Longrightarrow> a \<in> set TOOL_NAMES"
  unfolding tool_request_def TOOL_NAMES_def
  by (auto simp: bindE_def split: if_splits sum.splits)

lemma executeTool_log:
  assumes "log_ok l"
  shows "log_ok (snd (snd (executeTool lib toolName toolInput (sendCommand (with_log env)) overrides (w, l))))"
proof -
  define session where "session = (if overrides = Undefined then Obj [] else overrides)"
  show ?thesis
  proof (cases "tool_request toolName toolInput session")
    case (Inl err)
    with assms show ?thesis
      unfolding executeTool_def Let_def session_def[symmetric] by simp
  next
    case (Inr req)
    show ?thesis
    proof (cases req)
      case None
      with Inr assms show ?thesis
        unfolding executeTool_def Let_def session_def[symmetric] by simp
    next
      case (Some call)
      obtain a p t where call: "call = (a, p, t)" by (cases call) auto
      from Inr Some call have "a \<in> set TOOL_NAMES" using tool_request_action by blast
      with Inr Some call assms show ?thesis
        unfolding executeTool_def Let_def session_def[symmetric]
        by (auto simp: with_log_def log_ok_def split: sum.splits prod.splits)
    qed
  qed
qed

lemma block_events_not_terminal: "e \<in> set (block_events bs) \<Longrightarrow> \<not> terminal e"
  by (induction bs rule: block_events.induct) auto

lemma exec_tools_loop_ok:
  "loop_ok st \<Longrightarrow> loop_ok (snd (exec_tools lib (with_log env) overrides tools acc st))"
proof (induction tools arbitrary: acc st)
  case Nil
  then show ?case by simp
next
  case (Cons tool rest)
  obtain tid name input where tool: "tool = (tid, name, input)" by (cases tool) auto
  let ?st1 = "emit (Status (''Executing: '' @ name @ ''...'')) st"
  let ?out = "executeTool lib name input (sendCommand (with_log env)) overrides (world ?st1)"
  let ?st2 = "?st1\<lparr> world := snd ?out, aborted := (aborted ?st1 \<or> abort_called (with_log env) (snd ?out)) \<rparr>"
  have "log_ok (snd (snd ?out))"
    using executeTool_log[of "snd (world ?st1)" lib name input env overrides "fst (world ?st1)"] Cons.prems
    by (simp add: loop_ok_def emit_def)
  then have ok2: "loop_ok ?st2" using Cons.prems by (simp add: loop_ok_def emit_def)
  have rec: "loop_ok (snd (exec_tools lib (with_log env) overrides rest acc' ?st2))" for acc'
    using Cons.IH[OF ok2] .
  show ?case
  proof (cases "aborted st")
    case True
    with Cons.prems show ?thesis by (simp add: tool)
  next
    case na: False
    show ?thesis
    proof (cases "fst ?out")
      case (Inl err)
      with na ok2 show ?thesis by (simp add: tool Let_def)
    next
      case (Inr result)
      show ?thesis
      proof (cases "aborted ?st2")
        case True
        with na Inr ok2 show ?thesis by (simp add: tool Let_def)
      next
        case na2: False
        show ?thesis
        proof (cases "buildToolResultContent lib name result")
          case (Inl err)
          with na Inr na2 ok2 show ?thesis by (simp add: tool Let_def)
        next
          case c: (Inr c)
          with na Inr na2 rec[of "acc @ [\<lparr> tool_use_id = tid, tr_content = c \<rparr>]"] show ?thesis
            by (simp add: tool Let_def)
        qed
      qed
    qed
  qed
qed

lemma agent_loop_loop_ok:
  "loop_ok st \<Longrightarrow> loop_ok (snd (agent_loop lib (with_log env) overrides n st))"
proof (induction n arbitrary: st)
  case 0
  then show ?case by simp
next
  case (Suc n)
  let ?st1 = "emit (Status ''Thinking...'') st"
  let ?out = "messages_create (with_log env) (world ?st1) (history ?st1)"
  let ?st2 = "?st1\<lparr> world := snd ?out, aborted := (aborted ?st1 \<or> abort_called (with_log env) (snd ?out)) \<rparr>"
  have ok2: "loop_ok ?st2" using Suc.prems by (simp add: loop_ok_def emit_def with_log_def)
  show ?case
  proof (cases "aborted st")
    case True
    with Suc.prems show ?thesis by simp
  next
    case na: False
    show ?thesis
    proof (cases "fst ?out")
      case (Inl err)
      with na ok2 show ?thesis by (simp add: Let_def)
    next
      case (Inr resp)
      let ?st3 = "?st2\<lparr> history := history ?st2 @ [AssistantMessage (content resp)] \<rparr>"
      let ?st4 = "?st3\<lparr> events := events ?st3 @ block_events (content resp) \<rparr>"
      let ?st5 = "?st4\<lparr> finalText := finalText ?st4 @ concat (textParts (content resp)) \<rparr>"
      have ok5: "loop_ok ?st5" using ok2 block_events_not_terminal by (auto simp: loop_ok_def)
      obtain r st6 where t: "exec_tools lib (with_log env) overrides (toolUseBlocks (content resp)) [] ?st5 = (r, st6)"
        by (cases "exec_tools lib (with_log env) overrides (toolUseBlocks (content resp)) [] ?st5") auto
      have ok6: "loop_ok st6"
        using exec_tools_loop_ok[OF ok5, of lib env overrides "toolUseBlocks (content resp)" "[]"] t by simp
      have ok7: "loop_ok (st6\<lparr> history := history st6 @ [ToolResultsMessage res] \<rparr>)" for res
        using ok6 by simp
      show ?thesis
      proof (cases "aborted ?st2")
        case True
        with na Inr ok2 show ?thesis by (simp add: Let_def)
      next
        case na2: False
        show ?thesis
        proof (cases "length (toolUseBlocks (content resp)) = 0 \<or> stop_reason resp = ''end_turn''")
          case True
          with na Inr na2 ok5 show ?thesis by (simp add: Let_def)
        next
          case False
          show ?thesis
          proof (cases r)
            case (Inl err)
            with na Inr na2 False t ok6 show ?thesis by (simp add: Let_def)
          next
            case res: (Inr res)
            with na Inr na2 False t Suc.IH[OF ok7, of res] show ?thesis by (simp add: Let_def)
          qed
        qed
      qed
    qed
  qed
qed

lemma api_chat_aborted:
  assumes "get_prop body ''message'' = Inr (Str userMessage)" "userMessage \<noteq> []" "sim_connected s"
    and "processMessage lib env userMessage (chat_controller body ctlr) w = (Inl AbortError, ctl', evs, w')"
  shows "api_chat lib env s body ctlr w = (Stream (evs @ [AbortedEvent ''Interrupted by user'']), ctl', w')"
proof -
  have "(case get_prop body ''dataSources'' of Inr d \<Rightarrow> d | Inl e \<Rightarrow> Undefined) = read_prop body ''dataSources''"
    by (simp add: read_prop_def)
  then show ?thesis
    using assms unfolding api_chat_def chat_controller_def Let_def
    by (cases "truthy (read_prop body ''dataSources'')") (simp_all add: AbortError_def)
qed

lemma thrown_name_AbortError [simp]: "thrown_name AbortError = Inr (Str ''AbortError'')"
  by (simp add: AbortError_def)

lemma stop_not_tool: "''stop_motors'' \<notin> set TOOL_NAMES"
  by (simp add: TOOL_NAMES_def)

text \<open>
  The cancellation points: at the top of the loop and before each tool the abort error is
  raised when the flag is set, and after a request to the model or a tool execution that
  returned, when \<open>abort()\<close> was called meanwhile.
\<close>

lemma cancellation_points:
  "aborted st \<Longrightarrow> agent_loop lib env overrides (Suc n) st = (Inl AbortError, st)"
  "aborted st \<Longrightarrow> exec_tools lib env overrides (tool # rest) acc st = (Inl AbortError, st)"
  "\<not> aborted st \<Longrightarrow> fst (messages_create env (world st) (history st)) = Inr resp
     \<Longrightarrow> abort_called env (snd (messages_create env (world st) (history st)))
     \<Longrightarrow> fst (agent_loop lib env overrides (Suc n) st) = Inl AbortError"
  "\<not> aborted st \<Longrightarrow> fst (executeTool lib name input (sendCommand env) overrides (world st)) = Inr r
     \<Longrightarrow> abort_called env (snd (executeTool lib name input (sendCommand env) overrides (world st)))
     \<Longrightarrow> fst (exec_tools lib env overrides ((tid, name, input) # rest) acc st) = Inl AbortError"
  by (cases tool; simp add: Let_def)+

text \<open>
  Claim C7. When the loop of a \<open>processMessage\<close> call raises the abort error, whatever
  the model asked for and however many tool invocations were queued or done:
  \<open>processMessage\<close> throws that abort error to its caller, whether the stop command
  resolves or rejects; the relay calls of the whole call contain exactly one
  \<open>stop_motors\<close> command, with empty parameters and a timeout of 5000 ms, and it is the
  last call; the updates streamed by the loop contain none of the three final markers; and
  the chat endpoint, given a valid request, writes those updates followed by exactly one
  \<open>aborted\<close> marker.
\<close>

theorem cancelled_call_stops_once_and_aborts:
  fixes env :: "'w agent_env" and ctlr :: controller and body :: jsval and s :: relay
    and userMessage :: string and w :: 'w
  defines "E \<equiv> with_log env"
  defines "ctl \<equiv> chat_controller body ctlr"
  defines "st0 \<equiv> \<lparr> history = conversationHistory ctl @ [UserMessage userMessage], finalText = [],
                    events = [], aborted = False, world = (w, []) \<rparr>"
  assumes cancelled: "fst (agent_loop lib E (dataSourceOverrides ctl) MAX_ITERATIONS st0) = Inl AbortError"
  shows "\<exists>ctl' evs w' calls.
           processMessage lib E userMessage ctl (w, []) = (Inl AbortError, ctl', evs, (w', calls))
         \<and> filter (\<lambda>c. fst c = ''stop_motors'') calls = [(''stop_motors'', Obj [], 5000)]
         \<and> last calls = (''stop_motors'', Obj [], 5000)
         \<and> (\<forall>e \<in> set evs. \<not> terminal e)
         \<and> (get_prop body ''message'' = Inr (Str userMessage) \<and> userMessage \<noteq> [] \<and> sim_connected s \<longrightarrow>
              api_chat lib E s body ctlr (w, []) =
                (Stream (evs @ [AbortedEvent ''Interrupted by user'']), ctl', (w', calls)))"
proof -
  let ?ctl1 = "ctl\<lparr> conversationHistory := conversationHistory ctl @ [UserMessage userMessage],
                      abortController := True \<rparr>"
  let ?out = "agent_loop lib E (dataSourceOverrides ctl) MAX_ITERATIONS st0"
  let ?st = "snd ?out"
  let ?ctl2 = "?ctl1\<lparr> conversationHistory := history ?st, abortController := False \<rparr>"
  let ?stop = "sendCommand E (world ?st) ''stop_motors'' (Obj []) 5000"
  have "loop_ok st0" by (simp add: st0_def loop_ok_def log_ok_def)
  then have ok: "loop_ok ?st" unfolding E_def by (rule agent_loop_loop_ok)
  have pm: "processMessage lib E userMessage ctl (w, []) = (Inl AbortError, ?ctl2, events ?st, snd ?stop)"
    using cancelled by (simp add: processMessage_def Let_def st0_def)
  have stop: "snd ?stop = (snd (sendCommand env (fst (world ?st)) ''stop_motors'' (Obj []) 5000),
                           snd (world ?st) @ [(''stop_motors'', Obj [], 5000)])"
    by (simp add: E_def with_log_def)
  let ?w' = "snd (sendCommand env (fst (world ?st)) ''stop_motors'' (Obj []) 5000)"
  let ?calls = "snd (world ?st) @ [(''stop_motors'', Obj [], 5000)]"
  have "filter (\<lambda>c. fst c = ''stop_motors'') (snd (world ?st)) = []"
    using ok stop_not_tool by (auto simp: loop_ok_def log_ok_def filter_empty_conv)
  then have f: "filter (\<lambda>c. fst c = ''stop_motors'') ?calls = [(''stop_motors'', Obj [], 5000)]"
    by simp
  have l: "last ?calls = (''stop_motors'', Obj [], 5000)" by simp
  have ev: "\<forall>e \<in> set (events ?st). \<not> terminal e" using ok by (simp add: loop_ok_def)
  have chat: "get_prop body ''message'' = Inr (Str userMessage) \<and> userMessage \<noteq> [] \<and> sim_connected s \<longrightarrow>
              api_chat lib E s body ctlr (w, []) =
                (Stream (events ?st @ [AbortedEvent ''Interrupted by user'']), ?ctl2, (?w', ?calls))"
    using api_chat_aborted[of body userMessage s lib E ctlr "(w, [])" ?ctl2 "events ?st" "(?w', ?calls)"] pm stop
    by (simp add: ctl_def)
  show ?thesis
    using pm stop f l ev chat by (intro exI[of _ ?ctl2] exI[of _ "events ?st"] exI[of _ ?w'] exI[of _ ?calls]) simp
qed

lemma interrupted_loop:
  "agent_loop lib0 (with_log interrupted_run)
     (Obj [(''head_camera'', Bool True), (''orbit_camera'', Bool True), (''state_data'', Bool True)])
     MAX_ITERATIONS
     \<lparr> history = [UserMessage ''look around''], finalText = [], events = [], aborted = False,
       world = (0, []) \<rparr>
   = (Inl AbortError,
      \<lparr> history = [UserMessage ''look around'',
                   AssistantMessage [ToolUseBlock ''toolu_1'' ''get_scene_objects'' (Obj []),
                                     ToolUseBlock ''toolu_2'' ''get_robot_state'' (Obj []),
                                     ToolUseBlock ''toolu_3'' ''reset_robot'' (Obj [])]],
        finalText = [],
        events = [Status ''Thinking...'', ToolCall ''get_scene_objects'' (Obj []),
                  ToolCall ''get_robot_state'' (Obj []), ToolCall ''reset_robot'' (Obj []),
                  Status ''Executing: get_scene_objects...''],
        aborted = True,
        world = (2, [(''get_scene_objects'', Obj [], 30000)]) \<rparr>)"
proof -
  have m: "MAX_ITERATIONS = Suc 19" by (simp add: MAX_ITERATIONS_def)
  show ?thesis
    unfolding m
    by (subst agent_loop.simps(2))
       (simp add: with_log_def interrupted_run_def Let_def emit_def executeTool_def tool_request_def
          COMMAND_TIMEOUT_def)
qed

lemma chat_request_fields:
  "get_prop chat_request ''message'' = Inr (Str ''look around'')"
  "chat_controller chat_request controller_init = controller_init"
  by (simp_all add: chat_request_def chat_controller_def read_prop_def)

theorem cancelled_call_stops_once_and_aborts_witness:
  "api_chat lib0 (with_log interrupted_run) (run one_command relay_init) chat_request controller_init (0, []) =
     (Stream [Status ''Thinking...'', ToolCall ''get_scene_objects'' (Obj []),
              ToolCall ''get_robot_state'' (Obj []), ToolCall ''reset_robot'' (Obj []),
              Status ''Executing: get_scene_objects...'', AbortedEvent ''Interrupted by user''],
      controller_init\<lparr> conversationHistory :=
         [UserMessage ''look around'',
          AssistantMessage [ToolUseBlock ''toolu_1'' ''get_scene_objects'' (Obj []),
                            ToolUseBlock ''toolu_2'' ''get_robot_state'' (Obj []),
                            ToolUseBlock ''toolu_3'' ''reset_robot'' (Obj [])]] \<rparr>,
      (3, [(''get_scene_objects'', Obj [], 30000), (''stop_motors'', Obj [], 5000)]))"
proof -
  have c: "fst (agent_loop lib0 (with_log interrupted_run)
              (dataSourceOverrides (chat_controller chat_request controller_init)) MAX_ITERATIONS
              \<lparr> history = conversationHistory (chat_controller chat_request controller_init) @ [UserMessage ''look around''],
                finalText = [], events = [], aborted = False, world = (0, []) \<rparr>) = Inl AbortError"
    by (simp only: chat_request_fields) (simp add: controller_init_def interrupted_loop)
  have p: "processMessage lib0 (with_log interrupted_run) ''look around'' controller_init (0, []) =
      (Inl AbortError,
       controller_init\<lparr> conversationHistory :=
         [UserMessage ''look around'',
          AssistantMessage [ToolUseBlock ''toolu_1'' ''get_scene_objects'' (Obj []),
                            ToolUseBlock ''toolu_2'' ''get_robot_state'' (Obj []),
                            ToolUseBlock ''toolu_3'' ''reset_robot'' (Obj [])]] \<rparr>,
       [Status ''Thinking...'', ToolCall ''get_scene_objects'' (Obj []),
        ToolCall ''get_robot_state'' (Obj []), ToolCall ''reset_robot'' (Obj []),
        Status ''Executing: get_scene_objects...''],
       (3, [(''get_scene_objects'', Obj [], 30000), (''stop_motors'', Obj [], 5000)]))"
    by (simp add: processMessage_def Let_def controller_init_def interrupted_loop)
       (simp add: with_log_def interrupted_run_def)
  from cancelled_call_stops_once_and_aborts [where env = interrupted_run and lib = lib0 and body = chat_request and ctlr = controller_init
             and userMessage = "''look around''" and w = 0 and s = "run one_command relay_init", OF c]
  show ?thesis
    by (simp add: chat_request_fields one_command_state p)
qed

end
